theory Spec2Isabelle
  imports Complex_Main
begin

section \<open>The agent-based calculator (CalculadoraAgentes.py)\<close>

text \<open>
  A shallow embedding of the expression evaluator of \<^verbatim>\<open>CalculadoraAgentes.py\<close>: the
  message broker, the five operation agents, the tokenizer and the precedence evaluator of
  \<^verbatim>\<open>IOAgent\<close>, and the statistics of \<^verbatim>\<open>CalculatorModel\<close>.

  Numbers. Python's \<^verbatim>\<open>float\<close> is modelled by \<^typ>\<open>real\<close>: arithmetic is exact, there is
  no rounding, no \<^verbatim>\<open>inf\<close>/\<^verbatim>\<open>nan\<close> and no \<^verbatim>\<open>OverflowError\<close>. The model agrees with the
  program wherever every literal and every intermediate value is exactly representable
  as a binary64 number (small integers and dyadic fractions in particular).

  Strings. A \<^typ>\<open>string\<close> is a list of 8-bit characters, so an expression is a Python
  string of code points below 256. In that range the pattern class \<^verbatim>\<open>\d\<close> is \<^verbatim>\<open>[0-9]\<close>.
\<close>

subsection \<open>Values, tokens and errors\<close>

text \<open>
  What an operation function returns: a float, or the complex number that
  \<^verbatim>\<open>operator.pow\<close> gives for a negative base and a non-integer exponent. Of a complex
  value only one fact is used: its \<^verbatim>\<open>str()\<close> is not a float literal.
\<close>

datatype pyval = PyFloat real | PyComplex

text \<open>
  The evaluator works on a \<^verbatim>\<open>List[str]\<close>. A token is either a string that the tokenizer
  produced (\<open>Lit\<close>) or \<^verbatim>\<open>str(result)\<close> of a computed value (\<open>Res\<close>). Two facts of Python
  justify keeping the value instead of its decimal text: \<^verbatim>\<open>float(str(x)) == x\<close> for every
  float \<^verbatim>\<open>x\<close>, and \<^verbatim>\<open>str\<close> of a float or of a complex is never one of the strings
  \<^verbatim>\<open>+ - * / ** ( )\<close> that the evaluator compares tokens with.
\<close>

datatype token = Lit string | Res pyval

datatype agent_id =
  suma_agent | resta_agent | multiplicacion_agent | division_agent | potencia_agent | io_agent

text \<open>The exceptions of the program: the Python class, and the message by its raise site.\<close>

datatype message_text =
    Division_por_cero_no_permitida
  | Parentesis_no_balanceados
  | Operador_en_posicion_invalida token
  | Error_en_evaluacion_tokens_restantes "token list"
  | Operador_no_soportado string
  | No_se_recibio_respuesta_del_agente agent_id
  | Could_not_convert_to_float token

datatype error =
    ValueError message_text
  | RuntimeError message_text
  | ZeroDivisionError
  | KeyError string

subsection \<open>Messages and the broker\<close>

datatype content = Operands real real | Result pyval

text \<open>
  \<^verbatim>\<open>class Message\<close>. The field \<^verbatim>\<open>timestamp\<close> is always \<^verbatim>\<open>None\<close> and never read; it is
  left out.
\<close>

record message =
  sender :: agent_id
  receiver :: agent_id
  content :: content
  msg_type :: string

text \<open>The lines of the log, by the f-string that builds them, with the values it formats.\<close>

datatype log_line =
    Log_separador
  | Log_nueva_expresion string
  | Log_tokens "string list"
  | Log_resultado_final real
  | Log_error_al_procesar error
  | Log_evaluando_parentesis "token list"
  | Log_enviando agent_id real string real
  | Log_recibido agent_id pyval
  | Log_operacion agent_id real real pyval
  | Log_error_operacion agent_id error

text \<open>
  The mutable state of a \<^verbatim>\<open>CalculatorModel\<close>: the broker's queue and history, the log,
  the counter \<^verbatim>\<open>operations_performed\<close> of each operation agent, and the three fields of
  the \<^verbatim>\<open>IOAgent\<close>. The broker's \<^verbatim>\<open>log_enabled\<close> is set to \<^verbatim>\<open>True\<close> by the constructor
  and assigned nowhere else; it is the constant below.
\<close>

record model =
  message_queue :: "message list"
  message_history :: "message list"
  log_messages :: "log_line list"
  operations_performed :: "agent_id \<Rightarrow> nat"
  current_expression :: "string option"
  io_result :: "real option"
  processing :: bool

definition log_enabled :: bool where
  "log_enabled = True"

definition send_message :: "message \<Rightarrow> model \<Rightarrow> model" where
  "send_message m s =
     (let s1 = s\<lparr>message_queue := message_queue s @ [m]\<rparr>
      in if log_enabled then s1\<lparr>message_history := message_history s1 @ [m]\<rparr> else s1)"

definition get_messages_for :: "agent_id \<Rightarrow> model \<Rightarrow> message list \<times> model" where
  "get_messages_for a s =
     (filter (\<lambda>m. receiver m = a) (message_queue s),
      s\<lparr>message_queue := filter (\<lambda>m. receiver m \<noteq> a) (message_queue s)\<rparr>)"

definition clear_history :: "model \<Rightarrow> model" where
  "clear_history s = s\<lparr>message_history := []\<rparr>"

definition add_log :: "log_line \<Rightarrow> model \<Rightarrow> model" where
  "add_log l s = s\<lparr>log_messages := log_messages s @ [l]\<rparr>"

definition clear_logs :: "model \<Rightarrow> model" where
  "clear_logs s = s\<lparr>log_messages := []\<rparr>"

subsection \<open>The operation agents\<close>

definition safe_div :: "real \<Rightarrow> real \<Rightarrow> error + pyval" where
  "safe_div a b =
     (if b = 0 then Inl (ValueError Division_por_cero_no_permitida)
      else Inr (PyFloat (a / b)))"

text \<open>
  \<^verbatim>\<open>operator.pow\<close> on two floats, as CPython's \<^verbatim>\<open>float_pow\<close> computes it over the reals:
  zero to a negative power raises \<^verbatim>\<open>ZeroDivisionError\<close>, a negative base with a
  non-integer exponent gives a complex number, everything else is the real power
  (\<open>0 ** 0 = 1\<close>, \<open>0 ** y = 0\<close> for positive \<open>y\<close>).
\<close>

definition operator_pow :: "real \<Rightarrow> real \<Rightarrow> error + pyval" where
  "operator_pow a b =
     (if a = 0 \<and> b < 0 then Inl ZeroDivisionError
      else if of_int \<lfloor>b\<rfloor> = b then Inr (PyFloat (a powi \<lfloor>b\<rfloor>))
      else if a < 0 then Inr PyComplex
      else Inr (PyFloat (a powr b)))"

text \<open>
  \<^verbatim>\<open>operation_func\<close> of each subclass of \<^verbatim>\<open>OperationAgent\<close>. The \<^verbatim>\<open>IOAgent\<close> is no
  operation agent and has none.
\<close>

fun operation_func :: "agent_id \<Rightarrow> real \<Rightarrow> real \<Rightarrow> error + pyval" where
  "operation_func suma_agent a b = Inr (PyFloat (a + b))"
| "operation_func resta_agent a b = Inr (PyFloat (a - b))"
| "operation_func multiplicacion_agent a b = Inr (PyFloat (a * b))"
| "operation_func division_agent a b = safe_div a b"
| "operation_func potencia_agent a b = operator_pow a b"

text \<open>
  \<^verbatim>\<open>OperationAgent.perform_operation\<close>: the counter is incremented after the operation
  function has returned; when it raises, the error is logged and raised again.
\<close>

definition perform_operation ::
  "agent_id \<Rightarrow> real \<Rightarrow> real \<Rightarrow> model \<Rightarrow> (error + pyval) \<times> model" where
  "perform_operation ag operand1 operand2 s =
     (case operation_func ag operand1 operand2 of
        Inr r \<Rightarrow>
          (Inr r,
           add_log (Log_operacion ag operand1 operand2 r)
             (s\<lparr>operations_performed :=
                  (operations_performed s)(ag := operations_performed s ag + 1)\<rparr>))
      | Inl e \<Rightarrow> (Inl e, add_log (Log_error_operacion ag e) s))"

text \<open>
  The loop of \<^verbatim>\<open>OperationAgent.step\<close> over the messages taken from the queue. An
  exception leaves the loop: the remaining messages are gone from the queue and
  unanswered.
\<close>

fun step_messages :: "agent_id \<Rightarrow> message list \<Rightarrow> model \<Rightarrow> (error + unit) \<times> model" where
  "step_messages ag [] s = (Inr (), s)"
| "step_messages ag (msg # msgs) s =
     (if msg_type msg = ''operation'' then
        (case content msg of
           Result _ \<Rightarrow> (Inl (KeyError ''operands''), s)
         | Operands operand1 operand2 \<Rightarrow>
             (case perform_operation ag operand1 operand2 s of
                (Inl e, s1) \<Rightarrow> (Inl e, s1)
              | (Inr r, s1) \<Rightarrow>
                  step_messages ag msgs
                    (send_message
                       \<lparr>sender = ag, receiver = sender msg, content = Result r,
                        msg_type = ''result''\<rparr> s1)))
      else step_messages ag msgs s)"

text \<open>\<^verbatim>\<open>agent.step()\<close>: \<^verbatim>\<open>OperationAgent.step\<close>, and \<^verbatim>\<open>pass\<close> for the \<^verbatim>\<open>IOAgent\<close>.\<close>

definition step :: "agent_id \<Rightarrow> model \<Rightarrow> (error + unit) \<times> model" where
  "step ag s =
     (if ag = io_agent then (Inr (), s)
      else (case get_messages_for ag s of (messages, s1) \<Rightarrow> step_messages ag messages s1))"

subsection \<open>The tokenizer\<close>

definition is_digit :: "char \<Rightarrow> bool" where
  "is_digit c = (c \<in> set ''0123456789'')"

text \<open>
  One match of \<^verbatim>\<open>\d+\.?\d*\<close> at the head of a string that starts with a digit: the
  longest run of digits, a dot if one follows, the longest run of digits after it. Every
  part after the first digit is optional, so the greedy match never backtracks.
\<close>

definition match_number :: "string \<Rightarrow> string \<times> string" where
  "match_number cs =
     (let ds = takeWhile is_digit cs; r1 = dropWhile is_digit cs in
      case r1 of
        c # r2 \<Rightarrow>
          if c = CHR ''.'' then (ds @ ''.'' @ takeWhile is_digit r2, dropWhile is_digit r2)
          else (ds, r1)
      | [] \<Rightarrow> (ds, r1))"

lemma match_number_shorter:
  "is_digit c \<Longrightarrow> length (snd (match_number (c # cs))) \<le> length cs"
proof -
  assume d: "is_digit c"
  have a: "length (dropWhile is_digit cs) \<le> length cs"
    by (rule length_dropWhile_le)
  show ?thesis
  proof (cases "dropWhile is_digit cs")
    case Nil
    have "snd (match_number (c # cs)) = []"
      using d by (simp add: match_number_def Let_def Nil del: dropWhile_eq_Nil_conv)
    then show ?thesis by simp
  next
    case (Cons x r2)
    have b: "length (dropWhile is_digit r2) \<le> length r2"
      by (rule length_dropWhile_le)
    have c: "length r2 < length cs" using a Cons by simp
    have "snd (match_number (c # cs)) = (if x = CHR ''.'' then dropWhile is_digit r2 else x # r2)"
      using d by (simp add: match_number_def Let_def Cons)
    then show ?thesis using a b c Cons by simp
  qed
qed

text \<open>
  \<^verbatim>\<open>re.findall(r'(\d+\.?\d*|\+|\-|\*\*|\*|\/|\(|\))', expression)\<close>: at each position the
  alternatives are tried in the order of the pattern; where none matches, the scan moves
  one character on and nothing is reported.
\<close>

function findall :: "string \<Rightarrow> string list" where
  "findall [] = []"
| "findall (c # cs) =
     (if is_digit c then fst (match_number (c # cs)) # findall (snd (match_number (c # cs)))
      else if c = CHR ''+'' then ''+'' # findall cs
      else if c = CHR ''-'' then ''-'' # findall cs
      else if c = CHR ''*'' \<and> cs \<noteq> [] \<and> hd cs = CHR ''*'' then ''**'' # findall (tl cs)
      else if c = CHR ''*'' then ''*'' # findall cs
      else if c = CHR ''/'' then ''/'' # findall cs
      else if c = CHR ''('' then ''('' # findall cs
      else if c = CHR '')'' then '')'' # findall cs
      else findall cs)"
  by pat_completeness auto
termination
proof (relation "measure length")
  show "wf (measure length)" by simp
next
  fix c cs assume "is_digit c"
  then show "(snd (match_number (c # cs)), c # cs) \<in> measure length"
    using match_number_shorter [of c cs] by simp
qed (auto simp: less_Suc_eq_le)

text \<open>
  \<^verbatim>\<open>tokens[i+1].replace('.', '').isdigit()\<close>. The strings it is applied to are tokens of
  \<open>findall\<close>, whose only digits are \<^verbatim>\<open>0\<close> to \<^verbatim>\<open>9\<close>.
\<close>

definition isdigit :: "string \<Rightarrow> bool" where
  "isdigit s = (s \<noteq> [] \<and> list_all is_digit s)"

definition replace_dot :: "string \<Rightarrow> string" where
  "replace_dot s = filter (\<lambda>c. c \<noteq> CHR ''.'') s"

text \<open>
  The loop of \<^verbatim>\<open>IOAgent.tokenize\<close> that folds a minus sign into the numeral after it;
  \<open>i\<close> is the loop index and \<open>processed_tokens\<close> the list built so far.
\<close>

function tokenize_loop :: "string list \<Rightarrow> nat \<Rightarrow> string list \<Rightarrow> string list" where
  "tokenize_loop tokens i processed_tokens =
     (if i < length tokens then
        (if tokens ! i = ''-'' \<and>
            (i = 0 \<or> tokens ! (i - 1) \<in> set [''('', ''+'', ''-'', ''*'', ''/'', ''**'']) \<and>
            i + 1 < length tokens \<and> isdigit (replace_dot (tokens ! (i + 1)))
         then tokenize_loop tokens (i + 2) (processed_tokens @ [''-'' @ tokens ! (i + 1)])
         else tokenize_loop tokens (i + 1) (processed_tokens @ [tokens ! i]))
      else processed_tokens)"
  by pat_completeness auto
termination
  by (relation "measure (\<lambda>(tokens, i, processed_tokens). length tokens - i)") auto

definition tokenize :: "string \<Rightarrow> string list" where
  "tokenize expression = tokenize_loop (findall expression) 0 []"

subsection \<open>The evaluator\<close>

definition digit_value :: "char \<Rightarrow> nat" where
  "digit_value c = of_char c - 48"

definition digits_value :: "string \<Rightarrow> nat" where
  "digits_value ds = foldl (\<lambda>n c. 10 * n + digit_value c) 0 ds"

text \<open>
  \<^verbatim>\<open>float(s)\<close> on the strings the tokenizer can produce: an optional minus sign, digits,
  and optionally a dot and more digits give their decimal value; every other token
  (an operator, a parenthesis) makes \<^verbatim>\<open>float\<close> raise \<^verbatim>\<open>ValueError\<close>, here \<open>None\<close>.
\<close>

definition unsigned_literal :: "string \<Rightarrow> real option" where
  "unsigned_literal s =
     (let ds = takeWhile is_digit s; r = dropWhile is_digit s in
      if ds = [] then None
      else if r = [] then Some (of_nat (digits_value ds))
      else if hd r = CHR ''.'' \<and> list_all is_digit (tl r)
        then Some (of_nat (digits_value ds) + of_nat (digits_value (tl r)) / 10 ^ length (tl r))
      else None)"

definition float_literal :: "string \<Rightarrow> real option" where
  "float_literal s =
     (if s \<noteq> [] \<and> hd s = CHR ''-'' then map_option uminus (unsigned_literal (tl s))
      else unsigned_literal s)"

text \<open>\<^verbatim>\<open>float(token)\<close>: the value back for \<^verbatim>\<open>str\<close> of a float, an error for a complex.\<close>

fun float_of :: "token \<Rightarrow> error + real" where
  "float_of (Res (PyFloat x)) = Inr x"
| "float_of (Res PyComplex) = Inl (ValueError (Could_not_convert_to_float (Res PyComplex)))"
| "float_of (Lit s) =
     (case float_literal s of
        Some x \<Rightarrow> Inr x
      | None \<Rightarrow> Inl (ValueError (Could_not_convert_to_float (Lit s))))"

text \<open>\<^verbatim>\<open>self.operator_map.get(operator)\<close>.\<close>

definition operator_map :: "string \<Rightarrow> agent_id option" where
  "operator_map =
     map_of [(''+'', suma_agent), (''-'', resta_agent), (''*'', multiplicacion_agent),
             (''/'', division_agent), (''**'', potencia_agent)]"

text \<open>
  \<^verbatim>\<open>IOAgent.request_operation\<close>. Every agent id of \<open>operator_map\<close> is in the scheduler,
  so \<^verbatim>\<open>_agents.get\<close> finds the agent and its \<^verbatim>\<open>step\<close> runs. An exception of the step
  passes through; the \<^verbatim>\<open>RuntimeError\<close> is for a step that returns without an answer.
\<close>

definition request_operation ::
  "string \<Rightarrow> real \<Rightarrow> real \<Rightarrow> model \<Rightarrow> (error + pyval) \<times> model" where
  "request_operation operator operand1 operand2 s =
     (case operator_map operator of
        None \<Rightarrow> (Inl (ValueError (Operador_no_soportado operator)), s)
      | Some ag \<Rightarrow>
          (let s1 = send_message
                      \<lparr>sender = io_agent, receiver = ag,
                       content = Operands operand1 operand2, msg_type = ''operation''\<rparr> s;
               s2 = add_log (Log_enviando ag operand1 operator operand2) s1
           in case step ag s2 of
                (Inl e, s3) \<Rightarrow> (Inl e, s3)
              | (Inr u, s3) \<Rightarrow>
                  (case get_messages_for io_agent s3 of
                     ([], s4) \<Rightarrow> (Inl (RuntimeError (No_se_recibio_respuesta_del_agente ag)), s4)
                   | (r # rs, s4) \<Rightarrow>
                       (case content r of
                          Result v \<Rightarrow> (Inr v, add_log (Log_recibido ag v) s4)
                        | Operands a b \<Rightarrow> (Inl (KeyError ''result''), s4)))))"

text \<open>\<^verbatim>\<open>tokens[i] in operators\<close>: a computed value is never an operator.\<close>

fun token_in :: "token \<Rightarrow> string list \<Rightarrow> bool" where
  "token_in (Lit s) operators = (s \<in> set operators)"
| "token_in (Res v) operators = False"

fun token_str :: "token \<Rightarrow> string" where
  "token_str (Lit s) = s"

text \<open>
  \<^verbatim>\<open>IOAgent.evaluate_operator\<close>: the loop with its index \<open>i\<close>. After a replacement the
  index stays; otherwise it moves one token on.
\<close>

function evaluate_operator ::
  "token list \<Rightarrow> string list \<Rightarrow> nat \<Rightarrow> model \<Rightarrow> (error + token list) \<times> model" where
  "evaluate_operator tokens operators i s =
     (if i < length tokens then
        (if token_in (tokens ! i) operators then
           (if i = 0 \<or> i = length tokens - 1
            then (Inl (ValueError (Operador_en_posicion_invalida (tokens ! i))), s)
            else
              (case float_of (tokens ! (i - 1)) of
                 Inl e \<Rightarrow> (Inl e, s)
               | Inr operand1 \<Rightarrow>
                   (case float_of (tokens ! (i + 1)) of
                      Inl e \<Rightarrow> (Inl e, s)
                    | Inr operand2 \<Rightarrow>
                        (case request_operation (token_str (tokens ! i)) operand1 operand2 s of
                           (Inl e, s1) \<Rightarrow> (Inl e, s1)
                         | (Inr r, s1) \<Rightarrow>
                             evaluate_operator
                               (take (i - 1) tokens @ [Res r] @ drop (i + 2) tokens)
                               operators i s1))))
         else evaluate_operator tokens operators (i + 1) s)
      else (Inr tokens, s))"
  by pat_completeness auto
termination
  by (relation "measure (\<lambda>(tokens, operators, i, s). length tokens - i)") auto

text \<open>
  The first loop of \<^verbatim>\<open>handle_parentheses\<close>: the index of the last \<^verbatim>\<open>(\<close>. \<open>None\<close> is the
  \<^verbatim>\<open>-1\<close> of the source.
\<close>

fun find_start :: "token list \<Rightarrow> nat \<Rightarrow> nat option \<Rightarrow> nat option" where
  "find_start [] i start = start"
| "find_start (t # ts) i start =
     find_start ts (i + 1) (if t = Lit ''('' then Some i else start)"

text \<open>
  The second loop: the index of the first \<^verbatim>\<open>)\<close> among \<open>ts\<close>, the tokens from index \<open>i\<close>
  on.
\<close>

fun find_end :: "token list \<Rightarrow> nat \<Rightarrow> nat option" where
  "find_end [] i = None"
| "find_end (t # ts) i = (if t = Lit '')'' then Some i else find_end ts (i + 1))"

lemma find_start_bound:
  "find_start ts i start = Some k \<Longrightarrow> (start = Some k \<or> (i \<le> k \<and> k < i + length ts))"
  by (induction ts i start rule: find_start.induct) (auto split: if_splits)

lemma find_end_bound:
  "find_end ts i = Some k \<Longrightarrow> i \<le> k \<and> k < i + length ts"
  by (induction ts i rule: find_end.induct) (auto split: if_splits)

text \<open>
  \<^verbatim>\<open>IOAgent.evaluate_expression\<close> and \<^verbatim>\<open>IOAgent.handle_parentheses\<close>, which call each
  other. One unfolding of \<open>handle_parentheses\<close> is one turn of its \<^verbatim>\<open>while\<close> loop.
\<close>

function evaluate_expression :: "token list \<Rightarrow> model \<Rightarrow> (error + real) \<times> model"
  and handle_parentheses :: "token list \<Rightarrow> model \<Rightarrow> (error + token list) \<times> model" where
  "evaluate_expression tokens s =
     (case handle_parentheses tokens s of
        (Inl e, s1) \<Rightarrow> (Inl e, s1)
      | (Inr tokens1, s1) \<Rightarrow>
          (case evaluate_operator tokens1 [''**''] 0 s1 of
             (Inl e, s2) \<Rightarrow> (Inl e, s2)
           | (Inr tokens2, s2) \<Rightarrow>
               (case evaluate_operator tokens2 [''*'', ''/''] 0 s2 of
                  (Inl e, s3) \<Rightarrow> (Inl e, s3)
                | (Inr tokens3, s3) \<Rightarrow>
                    (case evaluate_operator tokens3 [''+'', ''-''] 0 s3 of
                       (Inl e, s4) \<Rightarrow> (Inl e, s4)
                     | (Inr tokens4, s4) \<Rightarrow>
                         (if length tokens4 = 1 then
                            (case float_of (tokens4 ! 0) of
                               Inl e \<Rightarrow> (Inl e, s4)
                             | Inr x \<Rightarrow> (Inr x, s4))
                          else
                            (Inl (ValueError (Error_en_evaluacion_tokens_restantes tokens4)),
                             s4))))))"
| "handle_parentheses tokens s =
     (if Lit ''('' \<in> set tokens then
        (case find_start tokens 0 None of
           None \<Rightarrow> (Inr tokens, s)
         | Some start \<Rightarrow>
             (case find_end (drop (start + 1) tokens) (start + 1) of
                None \<Rightarrow> (Inl (ValueError Parentesis_no_balanceados), s)
              | Some end \<Rightarrow>
                  (let sub_tokens = take (end - (start + 1)) (drop (start + 1) tokens)
                   in case evaluate_expression sub_tokens
                             (add_log (Log_evaluando_parentesis sub_tokens) s) of
                        (Inl e, s1) \<Rightarrow> (Inl e, s1)
                      | (Inr r, s1) \<Rightarrow>
                          handle_parentheses
                            (take start tokens @ [Res (PyFloat r)] @ drop (end + 1) tokens)
                            s1)))
      else (Inr tokens, s))"
  by pat_completeness auto
termination
proof (relation "measure (\<lambda>x. case x of
                   Inl (tokens, s) \<Rightarrow> 2 * length tokens + 1
                 | Inr (tokens, s) \<Rightarrow> 2 * length tokens)")
  show "wf (measure (\<lambda>x. case x of
                   Inl (tokens, s) \<Rightarrow> 2 * length tokens + 1
                 | Inr (tokens, s) \<Rightarrow> 2 * length (tokens :: token list)))"
    by simp
next
  fix tokens :: "token list" and s :: model
  show "(Inr (tokens, s), Inl (tokens, s)) \<in> measure (\<lambda>x. case x of
                   Inl (tokens, s) \<Rightarrow> 2 * length tokens + 1
                 | Inr (tokens, s) \<Rightarrow> 2 * length tokens)"
    by simp
next
  fix tokens :: "token list" and s :: model and start en sub_tokens
  assume st: "find_start tokens 0 None = Some start"
    and en: "find_end (drop (start + 1) tokens) (start + 1) = Some en"
    and sub: "sub_tokens = take (en - (start + 1)) (drop (start + 1) tokens)"
  from find_start_bound [OF st] have a: "start < length tokens" by simp
  from find_end_bound [OF en] have b: "start + 1 \<le> en" "en < length tokens" using a by auto
  show "(Inl (sub_tokens, add_log (Log_evaluando_parentesis sub_tokens) s), Inr (tokens, s))
          \<in> measure (\<lambda>x. case x of
                   Inl (tokens, s) \<Rightarrow> 2 * length tokens + 1
                 | Inr (tokens, s) \<Rightarrow> 2 * length tokens)"
    using a b sub by simp
next
  fix tokens :: "token list" and s s1 :: model and start en sub_tokens r
  assume st: "find_start tokens 0 None = Some start"
    and en: "find_end (drop (start + 1) tokens) (start + 1) = Some en"
  from find_start_bound [OF st] have a: "start < length tokens" by simp
  from find_end_bound [OF en] have b: "start + 1 \<le> en" "en < length tokens" using a by auto
  show "(Inr (take start tokens @ [Res (PyFloat r)] @ drop (en + 1) tokens, s1), Inr (tokens, s))
          \<in> measure (\<lambda>x. case x of
                   Inl (tokens, s) \<Rightarrow> 2 * length tokens + 1
                 | Inr (tokens, s) \<Rightarrow> 2 * length tokens)"
    using a b by simp
qed

subsection \<open>The model\<close>

text \<open>
  \<^verbatim>\<open>IOAgent.process_expression\<close>: the \<^verbatim>\<open>except\<close> branch logs the error, clears the
  result and raises again; the \<^verbatim>\<open>finally\<close> branch runs on both ways out.
\<close>

definition process_expression :: "string \<Rightarrow> model \<Rightarrow> (error + real) \<times> model" where
  "process_expression expression s =
     (let s0 = add_log Log_separador
                 (add_log (Log_nueva_expresion expression)
                    (add_log Log_separador
                       (s\<lparr>current_expression := Some expression, processing := True\<rparr>)));
          tokens = tokenize (filter (\<lambda>c. c \<noteq> CHR '' '') expression);
          s1 = add_log (Log_tokens tokens) s0
      in case evaluate_expression (map Lit tokens) s1 of
           (Inr r, s2) \<Rightarrow>
             (Inr r,
              (add_log Log_separador
                 (add_log (Log_resultado_final r) (s2\<lparr>io_result := Some r\<rparr>)))
                \<lparr>processing := False\<rparr>)
         | (Inl e, s2) \<Rightarrow>
             (Inl e,
              ((add_log (Log_error_al_procesar e) s2)\<lparr>io_result := None\<rparr>)
                \<lparr>processing := False\<rparr>))"

text \<open>\<^verbatim>\<open>CalculatorModel.calculate\<close>, the entry point the spec calls \<open>evaluate\<close>.\<close>

definition calculate :: "string \<Rightarrow> model \<Rightarrow> (error + real) \<times> model" where
  "calculate expression s = process_expression expression (clear_history (clear_logs s))"



text \<open>The state that \<^verbatim>\<open>CalculatorModel.__init__\<close> builds.\<close>

definition init_model :: model where
  "init_model =
     \<lparr>message_queue = [], message_history = [], log_messages = [],
      operations_performed = (\<lambda>a. 0), current_expression = None, io_result = None,
      processing = False\<rparr>"

subsection \<open>Auxiliary definitions\<close>

text \<open>The two messages of one exchange between the \<^verbatim>\<open>IOAgent\<close> and an operation agent.\<close>

definition request_message :: "agent_id \<Rightarrow> real \<Rightarrow> real \<Rightarrow> message" where
  "request_message ag a b =
     \<lparr>sender = io_agent, receiver = ag, content = Operands a b, msg_type = ''operation''\<rparr>"

definition result_message :: "agent_id \<Rightarrow> pyval \<Rightarrow> message" where
  "result_message ag r =
     \<lparr>sender = ag, receiver = io_agent, content = Result r, msg_type = ''result''\<rparr>"

text \<open>
  The part of \<open>evaluate_expression\<close> after the parentheses: the three tiers and the
  final check. It is the same text as in the function; see \<open>evaluate_expression_tiers\<close>.
\<close>

definition apply_tiers :: "token list \<Rightarrow> model \<Rightarrow> (error + real) \<times> model" where
  "apply_tiers tokens1 s1 =
     (case evaluate_operator tokens1 [''**''] 0 s1 of
        (Inl e, s2) \<Rightarrow> (Inl e, s2)
      | (Inr tokens2, s2) \<Rightarrow>
          (case evaluate_operator tokens2 [''*'', ''/''] 0 s2 of
             (Inl e, s3) \<Rightarrow> (Inl e, s3)
           | (Inr tokens3, s3) \<Rightarrow>
               (case evaluate_operator tokens3 [''+'', ''-''] 0 s3 of
                  (Inl e, s4) \<Rightarrow> (Inl e, s4)
                | (Inr tokens4, s4) \<Rightarrow>
                    (if length tokens4 = 1 then
                       (case float_of (tokens4 ! 0) of
                          Inl e \<Rightarrow> (Inl e, s4)
                        | Inr x \<Rightarrow> (Inr x, s4))
                     else
                       (Inl (ValueError (Error_en_evaluacion_tokens_restantes tokens4)),
                        s4)))))"

text \<open>
  What \<open>calculate\<close> hands to \<open>evaluate_expression\<close>: the token list of the expression, and
  the state after the log and the history have been cleared and the first lines logged.
\<close>

definition expression_tokens :: "string \<Rightarrow> token list" where
  "expression_tokens expression =
     map Lit (tokenize (filter (\<lambda>c. c \<noteq> CHR '' '') expression))"

definition prepare :: "string \<Rightarrow> model \<Rightarrow> model" where
  "prepare expression s =
     add_log (Log_tokens (tokenize (filter (\<lambda>c. c \<noteq> CHR '' '') expression)))
       (add_log Log_separador
          (add_log (Log_nueva_expresion expression)
             (add_log Log_separador
                ((clear_history (clear_logs s))
                   \<lparr>current_expression := Some expression, processing := True\<rparr>))))"

text \<open>
  The agent that handles a token: the one \<open>operator_map\<close> gives for an operator string,
  none for any other token.
\<close>

fun agent_of :: "token \<Rightarrow> agent_id option" where
  "agent_of (Lit s) = operator_map s"
| "agent_of (Res v) = None"

text \<open>How many tokens of a list are operators handled by the agent \<open>ag\<close>.\<close>

definition occurrences :: "agent_id \<Rightarrow> token list \<Rightarrow> nat" where
  "occurrences ag tokens = length (filter (\<lambda>t. agent_of t = Some ag) tokens)"

text \<open>How many tokens of a list are operators.\<close>

definition operator_count :: "token list \<Rightarrow> nat" where
  "operator_count tokens = length (filter (\<lambda>t. agent_of t \<noteq> None) tokens)"

text \<open>
  One request and its answer: an \<^verbatim>\<open>operation\<close> message from the \<^verbatim>\<open>IOAgent\<close> to an
  operation agent, and the \<^verbatim>\<open>result\<close> message of that agent to the \<^verbatim>\<open>IOAgent\<close> that carries
  what the agent's function gives on the operands of the request.
\<close>

definition exchange :: "message \<Rightarrow> message \<Rightarrow> bool" where
  "exchange m m' =
     (sender m = io_agent \<and> receiver m \<noteq> io_agent \<and> msg_type m = ''operation'' \<and>
      sender m' = receiver m \<and> receiver m' = io_agent \<and> msg_type m' = ''result'' \<and>
      (case content m of
         Operands a b \<Rightarrow>
           (case content m' of
              Result r \<Rightarrow> operation_func (receiver m) a b = Inr r
            | Operands a' b' \<Rightarrow> False)
       | Result r \<Rightarrow> False))"

text \<open>A history that is a sequence of such pairs, and nothing else.\<close>

fun paired :: "message list \<Rightarrow> bool" where
  "paired [] = True"
| "paired [m] = False"
| "paired (m # m' # ms) = (exchange m m' \<and> paired ms)"

text \<open>
  What a successful run from \<open>s\<close> on \<open>tokens\<close> to \<open>s'\<close> with \<open>tokens'\<close> left has done: the
  queue is empty again, the history has grown by one pair for each operator token that is
  gone, and each counter by one for each token of its agent that is gone.
\<close>

definition advances :: "model \<Rightarrow> token list \<Rightarrow> model \<Rightarrow> token list \<Rightarrow> bool" where
  "advances s tokens s' tokens' =
     (message_queue s' = [] \<and>
      (\<exists>h. message_history s' = message_history s @ h \<and> paired h \<and>
           length h + 2 * operator_count tokens' = 2 * operator_count tokens) \<and>
      (\<forall>ag. operations_performed s' ag + occurrences ag tokens' =
            operations_performed s ag + occurrences ag tokens))"

text \<open>
  How many lines of a log report a completed operation of the agent \<open>ag\<close>: the line that
  \<open>perform_operation\<close> writes after the operation function has returned.
\<close>

definition applications :: "agent_id \<Rightarrow> log_line list \<Rightarrow> nat" where
  "applications ag ls =
     length (filter (\<lambda>l. case l of Log_operacion ag' a b r \<Rightarrow> ag' = ag | _ \<Rightarrow> False) ls)"

text \<open>
  The counter of \<open>ag\<close> is \<open>c\<close> plus the completed operations of \<open>ag\<close> that the log reports.
\<close>

definition balanced :: "agent_id \<Rightarrow> nat \<Rightarrow> model \<Rightarrow> bool" where
  "balanced ag c s = (operations_performed s ag = c + applications ag (log_messages s))"

text \<open>
  A purely numeric token in the spec's words: it consists of digits and decimal points
  only, and has at least one digit.
\<close>

definition spec_purely_numeric :: "string \<Rightarrow> bool" where
  "spec_purely_numeric t =
     (list_all (\<lambda>c. c \<in> set ''0123456789.'') t \<and> list_ex (\<lambda>c. c \<in> set ''0123456789'') t)"

text \<open>
  The fold of the minus sign as the spec words it, position by position: the \<^verbatim>\<open>-\<close> at
  position \<open>i\<close> is folded when it stands at position 0 or right after another operator or
  \<^verbatim>\<open>(\<close>, and the token after it is purely numeric.
\<close>

definition spec_folds_at :: "string list \<Rightarrow> nat \<Rightarrow> bool" where
  "spec_folds_at tokens i =
     (i < length tokens \<and> tokens ! i = ''-'' \<and>
      (i = 0 \<or> tokens ! (i - 1) \<in> set [''+'', ''-'', ''*'', ''/'', ''**'', ''('']) \<and>
      i + 1 < length tokens \<and> spec_purely_numeric (tokens ! (i + 1)))"

text \<open>
  What position \<open>i\<close> contributes to the result under that reading: the negative literal
  where a fold happens, nothing where the token was folded into the minus sign before it,
  and the token itself everywhere else.
\<close>

definition spec_fold_step :: "string list \<Rightarrow> nat \<Rightarrow> string list" where
  "spec_fold_step tokens i =
     (if spec_folds_at tokens i then [''-'' @ tokens ! (i + 1)]
      else if 0 < i \<and> spec_folds_at tokens (i - 1) then []
      else [tokens ! i])"

definition spec_fold :: "string list \<Rightarrow> string list" where
  "spec_fold tokens = concat (map (spec_fold_step tokens) [0..<length tokens])"



text \<open>The five operator tokens.\<close>

definition is_operator :: "token \<Rightarrow> bool" where
  "is_operator t = token_in t [''+'', ''-'', ''*'', ''/'', ''**'']"

text \<open>A token after which an operand has to begin: an operator, or \<^verbatim>\<open>(\<close>.\<close>

definition opens :: "token \<Rightarrow> bool" where
  "opens t = (is_operator t \<or> t = Lit ''('')"

text \<open>
  Some operator token of the list has no operand on its left: it is the first token (when
  \<open>p\<close> holds, which says that the list begins where an operand has to begin), or it stands
  right after an operator or \<^verbatim>\<open>(\<close>.
\<close>

fun lacks_from :: "bool \<Rightarrow> token list \<Rightarrow> bool" where
  "lacks_from p [] = False"
| "lacks_from p (t # ts) = ((p \<and> is_operator t) \<or> lacks_from (opens t) ts)"

definition lacks_left_operand :: "token list \<Rightarrow> bool" where
  "lacks_left_operand tokens = lacks_from True tokens"

text \<open>
  The tokens that \<^verbatim>\<open>re.findall\<close> gives for an expression once \<open>process_expression\<close> has
  removed its spaces, before the fold of the minus sign.
\<close>

definition raw_tokens :: "string \<Rightarrow> string list" where
  "raw_tokens expression = findall (filter (\<lambda>c. c \<noteq> CHR '' '') expression)"

text \<open>
  What any run from \<open>s\<close> on \<open>tokens\<close> to \<open>s'\<close> has done at most, returned or raised: the
  queue is empty again, and no counter has grown by more than the operator tokens of its
  agent.
\<close>

definition counters_bounded :: "model \<Rightarrow> token list \<Rightarrow> model \<Rightarrow> bool" where
  "counters_bounded s tokens s' =
     (message_queue s' = [] \<and>
      (\<forall>ag. operations_performed s' ag \<le> operations_performed s ag + occurrences ag tokens))"

section \<open>Properties\<close>

subsection \<open>One request and its answer\<close>

declare evaluate_operator.simps [simp del]
declare evaluate_expression.simps [simp del]
declare handle_parentheses.simps [simp del]

lemma operator_map_Some:
  "operator_map operator = Some ag \<Longrightarrow> ag \<noteq> io_agent"
  by (auto simp: operator_map_def split: if_splits)

lemma request_operation_empty_queue:
  assumes "message_queue s = []" and "operator_map operator = Some ag"
  shows "request_operation operator a b s =
     (case operation_func ag a b of
        Inl e \<Rightarrow>
          (Inl e,
           s\<lparr>message_queue := [],
             message_history := message_history s @ [request_message ag a b],
             log_messages := log_messages s @
               [Log_enviando ag a operator b, Log_error_operacion ag e]\<rparr>)
      | Inr r \<Rightarrow>
          (Inr r,
           s\<lparr>message_queue := [],
             message_history := message_history s @
               [request_message ag a b, result_message ag r],
             log_messages := log_messages s @
               [Log_enviando ag a operator b, Log_operacion ag a b r, Log_recibido ag r],
             operations_performed :=
               (operations_performed s)(ag := operations_performed s ag + 1)\<rparr>))"
  using assms operator_map_Some [OF assms(2)]
  by (simp add: request_operation_def step_def send_message_def log_enabled_def add_log_def
      get_messages_for_def perform_operation_def request_message_def result_message_def
      split: sum.splits)

lemma request_operation_unsupported:
  "operator_map operator = None \<Longrightarrow>
   request_operation operator a b s = (Inl (ValueError (Operador_no_soportado operator)), s)"
  by (simp add: request_operation_def)

lemma request_operation_queue:
  "message_queue s = [] \<Longrightarrow> message_queue (snd (request_operation operator a b s)) = []"
  by (cases "operator_map operator")
     (simp_all add: request_operation_unsupported request_operation_empty_queue split: sum.splits)

lemma request_operation_det:
  "message_queue s = [] \<Longrightarrow> message_queue t = [] \<Longrightarrow>
   fst (request_operation operator a b s) = fst (request_operation operator a b t)"
  by (cases "operator_map operator")
     (simp_all add: request_operation_unsupported request_operation_empty_queue split: sum.splits)

lemma evaluate_operator_state:
  assumes ro: "\<And>operator a b s. J s \<Longrightarrow> J (snd (request_operation operator a b s))"
  shows "J s \<Longrightarrow> J (snd (evaluate_operator tokens operators i s))"
proof (induction tokens operators i s rule: evaluate_operator.induct)
  case (1 tokens operators i s)
  note eq = evaluate_operator.simps [of tokens operators i s]
  show ?case
  proof (cases "i < length tokens \<and> token_in (tokens ! i) operators")
    case False
    then show ?thesis using "1.IH"(2) "1.prems" by (auto simp: eq)
  next
    case tin: True
    show ?thesis
    proof (cases "i = 0 \<or> i = length tokens - 1")
      case True
      then show ?thesis using tin "1.prems" by (simp add: eq)
    next
      case pos: False
      show ?thesis
      proof (cases "float_of (tokens ! (i - 1))")
        case (Inl e)
        then show ?thesis using tin pos "1.prems" by (simp add: eq)
      next
        case a: (Inr x)
        show ?thesis
        proof (cases "float_of (tokens ! (i + 1))")
          case (Inl e)
          then show ?thesis using tin pos a "1.prems" by (simp add: eq)
        next
          case b: (Inr y)
          obtain rs s1 where rs: "request_operation (token_str (tokens ! i)) x y s = (rs, s1)"
            by (cases "request_operation (token_str (tokens ! i)) x y s")
          have j1: "J s1" using ro [OF "1.prems", of "token_str (tokens ! i)" x y] rs by simp
          show ?thesis
          proof (cases rs)
            case (Inl e)
            then show ?thesis using tin pos a b rs j1 by (simp add: eq)
          next
            case (Inr r)
            have "J (snd (evaluate_operator (take (i - 1) tokens @ [Res r] @ drop (i + 2) tokens)
                       operators i s1))"
              using "1.IH"(1) [OF _ _ pos a b rs [symmetric] Inr j1] tin by simp
            then show ?thesis using tin pos a b rs Inr by (simp add: eq)
          qed
        qed
      qed
    qed
  qed
qed


lemma evaluate_operator_det:
  "message_queue s = [] \<Longrightarrow> message_queue t = [] \<Longrightarrow>
   fst (evaluate_operator tokens operators i s) = fst (evaluate_operator tokens operators i t)"
proof (induction tokens operators i s arbitrary: t rule: evaluate_operator.induct)
  case (1 tokens operators i s)
  note eq = evaluate_operator.simps [of tokens operators i]
  show ?case
  proof (cases "i < length tokens")
    case False
    then show ?thesis by (simp add: eq)
  next
    case lt: True
    show ?thesis
    proof (cases "token_in (tokens ! i) operators")
      case False
      have "fst (evaluate_operator tokens operators (i + 1) s) =
            fst (evaluate_operator tokens operators (i + 1) t)"
        using "1.IH"(2) [OF lt False "1.prems"] .
      then show ?thesis using lt False by (simp add: eq)
    next
      case tin: True
      show ?thesis
      proof (cases "i = 0 \<or> i = length tokens - 1")
        case True
        then show ?thesis using lt tin by (simp add: eq)
      next
        case pos: False
        show ?thesis
        proof (cases "float_of (tokens ! (i - 1))")
          case (Inl e)
          then show ?thesis using lt tin pos by (simp add: eq)
        next
          case a: (Inr x)
          show ?thesis
          proof (cases "float_of (tokens ! (i + 1))")
            case (Inl e)
            then show ?thesis using lt tin pos a by (simp add: eq)
          next
            case b: (Inr y)
            obtain rs s1 where rs: "request_operation (token_str (tokens ! i)) x y s = (rs, s1)"
              by (cases "request_operation (token_str (tokens ! i)) x y s")
            obtain rt t1 where rt: "request_operation (token_str (tokens ! i)) x y t = (rt, t1)"
              by (cases "request_operation (token_str (tokens ! i)) x y t")
            have same: "rt = rs"
              using request_operation_det [OF "1.prems", of "token_str (tokens ! i)" x y] rs rt
              by simp
            have q1: "message_queue s1 = []"
              using request_operation_queue [OF "1.prems"(1), of "token_str (tokens ! i)" x y] rs
              by simp
            have q2: "message_queue t1 = []"
              using request_operation_queue [OF "1.prems"(2), of "token_str (tokens ! i)" x y] rt
              by simp
            show ?thesis
            proof (cases rs)
              case (Inl e)
              then show ?thesis using lt tin pos a b rs rt same by (simp add: eq)
            next
              case (Inr r)
              have "fst (evaluate_operator (take (i - 1) tokens @ [Res r] @ drop (i + 2) tokens)
                         operators i s1) =
                    fst (evaluate_operator (take (i - 1) tokens @ [Res r] @ drop (i + 2) tokens)
                         operators i t1)"
                using "1.IH"(1) [OF lt tin pos a b rs [symmetric] Inr q1 q2] .
              then show ?thesis using lt tin pos a b rs rt same Inr by (simp add: eq)
            qed
          qed
        qed
      qed
    qed
  qed
qed


lemma evaluate_operator_state_eq:
  assumes "\<And>operator a b s. J s \<Longrightarrow> J (snd (request_operation operator a b s))"
    and "J s" and "evaluate_operator tokens operators i s = (r, s')"
  shows "J s'"
  using evaluate_operator_state [of J s tokens operators i] assms by simp

lemma evaluate_operator_queue:
  "message_queue s = [] \<Longrightarrow> evaluate_operator tokens operators i s = (r, s') \<Longrightarrow>
   message_queue s' = []"
  by (rule evaluate_operator_state_eq [where J = "\<lambda>s. message_queue s = []"])
     (simp_all add: request_operation_queue)

lemma evaluate_expression_tiers:
  "evaluate_expression tokens s =
     (case handle_parentheses tokens s of
        (Inl e, s1) \<Rightarrow> (Inl e, s1)
      | (Inr tokens1, s1) \<Rightarrow> apply_tiers tokens1 s1)"
  by (subst evaluate_expression.simps)
     (simp add: apply_tiers_def split: prod.splits sum.splits)

lemma apply_tiers_state:
  assumes ro: "\<And>operator a b s. J s \<Longrightarrow> J (snd (request_operation operator a b s))"
    and j: "J s"
  shows "J (snd (apply_tiers tokens s))"
proof -
  have st: "\<And>s tokens operators i r s'.
      J s \<Longrightarrow> evaluate_operator tokens operators i s = (r, s') \<Longrightarrow> J s'"
    using evaluate_operator_state_eq [of J] ro by blast
  obtain r2 s2 where e2: "evaluate_operator tokens [''**''] 0 s = (r2, s2)"
    by (cases "evaluate_operator tokens [''**''] 0 s")
  have j2: "J s2" using st [OF j e2] .
  show ?thesis
  proof (cases r2)
    case (Inl e)
    then show ?thesis using e2 j2 by (simp add: apply_tiers_def)
  next
    case t2: (Inr tokens2)
    obtain r3 s3 where e3: "evaluate_operator tokens2 [''*'', ''/''] 0 s2 = (r3, s3)"
      by (cases "evaluate_operator tokens2 [''*'', ''/''] 0 s2")
    have j3: "J s3" using st [OF j2 e3] .
    show ?thesis
    proof (cases r3)
      case (Inl e)
      then show ?thesis using e2 t2 e3 j3 by (simp add: apply_tiers_def)
    next
      case t3: (Inr tokens3)
      obtain r4 s4 where e4: "evaluate_operator tokens3 [''+'', ''-''] 0 s3 = (r4, s4)"
        by (cases "evaluate_operator tokens3 [''+'', ''-''] 0 s3")
      have j4: "J s4" using st [OF j3 e4] .
      show ?thesis using e2 t2 e3 t3 e4 j4
        by (cases r4) (simp_all add: apply_tiers_def split: sum.splits)
    qed
  qed
qed

lemma apply_tiers_det:
  assumes qs: "message_queue s = []" and qt: "message_queue t = []"
  shows "fst (apply_tiers tokens s) = fst (apply_tiers tokens t)"
proof -
  obtain r2 s2 where e2: "evaluate_operator tokens [''**''] 0 s = (r2, s2)"
    by (cases "evaluate_operator tokens [''**''] 0 s")
  obtain r2' t2 where f2: "evaluate_operator tokens [''**''] 0 t = (r2', t2)"
    by (cases "evaluate_operator tokens [''**''] 0 t")
  have same2: "r2' = r2" using evaluate_operator_det [OF qs qt, of tokens "[''**'']" 0] e2 f2 by simp
  have q2: "message_queue s2 = []" "message_queue t2 = []"
    using evaluate_operator_queue [OF qs e2] evaluate_operator_queue [OF qt f2] by simp_all
  show ?thesis
  proof (cases r2)
    case (Inl e)
    then show ?thesis using e2 f2 same2 by (simp add: apply_tiers_def)
  next
    case k2: (Inr tokens2)
    obtain r3 s3 where e3: "evaluate_operator tokens2 [''*'', ''/''] 0 s2 = (r3, s3)"
      by (cases "evaluate_operator tokens2 [''*'', ''/''] 0 s2")
    obtain r3' t3 where f3: "evaluate_operator tokens2 [''*'', ''/''] 0 t2 = (r3', t3)"
      by (cases "evaluate_operator tokens2 [''*'', ''/''] 0 t2")
    have same3: "r3' = r3"
      using evaluate_operator_det [OF q2, of tokens2 "[''*'', ''/'']" 0] e3 f3 by simp
    have q3: "message_queue s3 = []" "message_queue t3 = []"
      using evaluate_operator_queue [OF q2(1) e3] evaluate_operator_queue [OF q2(2) f3]
      by simp_all
    show ?thesis
    proof (cases r3)
      case (Inl e)
      then show ?thesis using e2 f2 same2 k2 e3 f3 same3 by (simp add: apply_tiers_def)
    next
      case k3: (Inr tokens3)
      obtain r4 s4 where e4: "evaluate_operator tokens3 [''+'', ''-''] 0 s3 = (r4, s4)"
        by (cases "evaluate_operator tokens3 [''+'', ''-''] 0 s3")
      obtain r4' t4 where f4: "evaluate_operator tokens3 [''+'', ''-''] 0 t3 = (r4', t4)"
        by (cases "evaluate_operator tokens3 [''+'', ''-''] 0 t3")
      have same4: "r4' = r4"
        using evaluate_operator_det [OF q3, of tokens3 "[''+'', ''-'']" 0] e4 f4 by simp
      show ?thesis using e2 f2 same2 k2 e3 f3 same3 k3 e4 f4 same4
        by (cases r4) (simp_all add: apply_tiers_def split: sum.splits)
    qed
  qed
qed

lemma apply_tiers_queue:
  "message_queue s = [] \<Longrightarrow> message_queue (snd (apply_tiers tokens s)) = []"
  by (rule apply_tiers_state [where J = "\<lambda>s. message_queue s = []"])
     (simp_all add: request_operation_queue)

lemma handle_parentheses_step:
  assumes "Lit ''('' \<in> set tokens" and "find_start tokens 0 None = Some start"
    and "find_end (drop (start + 1) tokens) (start + 1) = Some en"
    and "evaluate_expression (take (en - (start + 1)) (drop (start + 1) tokens))
           (add_log (Log_evaluando_parentesis
              (take (en - (start + 1)) (drop (start + 1) tokens))) s) = (r1, s1)"
  shows "handle_parentheses tokens s =
     (case r1 of
        Inl e \<Rightarrow> (Inl e, s1)
      | Inr r \<Rightarrow>
          handle_parentheses (take start tokens @ [Res (PyFloat r)] @ drop (en + 1) tokens) s1)"
  using assms by (subst handle_parentheses.simps) (simp add: Let_def split: sum.splits)

lemma evaluate_state:
  assumes ro: "\<And>operator a b s. J s \<Longrightarrow> J (snd (request_operation operator a b s))"
    and lg: "\<And>ts s. J s \<Longrightarrow> J (add_log (Log_evaluando_parentesis ts) s)"
  shows "J s \<Longrightarrow> J (snd (evaluate_expression tokens s))"
    and "J s \<Longrightarrow> J (snd (handle_parentheses tokens s))"
proof (induction tokens s and tokens s rule: evaluate_expression_handle_parentheses.induct)
  case (1 tokens s)
  obtain r1 s1 where h: "handle_parentheses tokens s = (r1, s1)"
    by (cases "handle_parentheses tokens s")
  have j1: "J s1" using "1.IH" [OF "1.prems"] h by simp
  have "\<And>tokens1. J (snd (apply_tiers tokens1 s1))"
    using apply_tiers_state [of J s1] ro j1 by blast
  then show ?case using h j1
    by (cases r1) (simp_all add: evaluate_expression_tiers)
next
  case (2 tokens s)
  note eq = handle_parentheses.simps [of tokens s]
  show ?case
  proof (cases "Lit ''('' \<in> set tokens")
    case False
    then show ?thesis using "2.prems" by (simp add: eq)
  next
    case op: True
    show ?thesis
    proof (cases "find_start tokens 0 None")
      case None
      then show ?thesis using op "2.prems" by (simp add: eq)
    next
      case st: (Some start)
      show ?thesis
      proof (cases "find_end (drop (start + 1) tokens) (start + 1)")
        case None
        then show ?thesis using op st "2.prems" by (simp add: eq)
      next
        case en: (Some en)
        define sub where "sub = take (en - (start + 1)) (drop (start + 1) tokens)"
        obtain r1 s1 where
          e: "evaluate_expression sub (add_log (Log_evaluando_parentesis sub) s) = (r1, s1)"
          by (cases "evaluate_expression sub (add_log (Log_evaluando_parentesis sub) s)")
        have j1: "J s1"
          using "2.IH"(1) [OF op st en sub_def lg [OF "2.prems"]] e by simp
        note hp = handle_parentheses_step [OF op st en e [unfolded sub_def]]
        show ?thesis
        proof (cases r1)
          case (Inl err)
          then show ?thesis using j1 by (simp add: hp)
        next
          case (Inr r)
          have "J (snd (handle_parentheses
                   (take start tokens @ [Res (PyFloat r)] @ drop (en + 1) tokens) s1))"
            using "2.IH"(2) [OF op st en sub_def e [symmetric] Inr j1] .
          then show ?thesis using Inr by (simp add: hp)
        qed
      qed
    qed
  qed
qed

lemma evaluate_expression_queue:
  "message_queue s = [] \<Longrightarrow> message_queue (snd (evaluate_expression tokens s)) = []"
  by (rule evaluate_state(1) [where J = "\<lambda>s. message_queue s = []"])
     (simp_all add: request_operation_queue add_log_def)

lemma handle_parentheses_queue:
  "message_queue s = [] \<Longrightarrow> message_queue (snd (handle_parentheses tokens s)) = []"
  by (rule evaluate_state(2) [where J = "\<lambda>s. message_queue s = []"])
     (simp_all add: request_operation_queue add_log_def)

lemma evaluate_det:
  shows "message_queue s = [] \<Longrightarrow> message_queue t = [] \<Longrightarrow>
         fst (evaluate_expression tokens s) = fst (evaluate_expression tokens t)"
    and "message_queue s = [] \<Longrightarrow> message_queue t = [] \<Longrightarrow>
         fst (handle_parentheses tokens s) = fst (handle_parentheses tokens t)"
proof (induction tokens s and tokens s arbitrary: t and t
       rule: evaluate_expression_handle_parentheses.induct)
  case (1 tokens s)
  obtain r1 s1 where h: "handle_parentheses tokens s = (r1, s1)"
    by (cases "handle_parentheses tokens s")
  obtain r1' t1 where h': "handle_parentheses tokens t = (r1', t1)"
    by (cases "handle_parentheses tokens t")
  have same: "r1' = r1" using "1.IH" [OF "1.prems"] h h' by simp
  have q: "message_queue s1 = []" "message_queue t1 = []"
    using handle_parentheses_queue [OF "1.prems"(1), of tokens]
      handle_parentheses_queue [OF "1.prems"(2), of tokens] h h' by simp_all
  show ?case using h h' same apply_tiers_det [OF q]
    by (cases r1) (simp_all add: evaluate_expression_tiers)
next
  case (2 tokens s)
  note eq = handle_parentheses.simps [of tokens]
  show ?case
  proof (cases "Lit ''('' \<in> set tokens")
    case False
    then show ?thesis by (simp add: eq)
  next
    case op: True
    show ?thesis
    proof (cases "find_start tokens 0 None")
      case None
      then show ?thesis using op by (simp add: eq)
    next
      case st: (Some start)
      show ?thesis
      proof (cases "find_end (drop (start + 1) tokens) (start + 1)")
        case None
        then show ?thesis using op st by (simp add: eq)
      next
        case en: (Some en)
        define sub where "sub = take (en - (start + 1)) (drop (start + 1) tokens)"
        define l where "l = Log_evaluando_parentesis sub"
        obtain r1 s1 where e: "evaluate_expression sub (add_log l s) = (r1, s1)"
          by (cases "evaluate_expression sub (add_log l s)")
        obtain r1' t1 where e': "evaluate_expression sub (add_log l t) = (r1', t1)"
          by (cases "evaluate_expression sub (add_log l t)")
        have ql: "message_queue (add_log l s) = []" "message_queue (add_log l t) = []"
          using "2.prems" by (simp_all add: add_log_def)
        have same: "r1' = r1"
          using "2.IH"(1) [OF op st en sub_def, of "add_log l t"] ql e e' by (simp add: l_def)
        have q: "message_queue s1 = []" "message_queue t1 = []"
          using evaluate_expression_queue [OF ql(1), of sub]
            evaluate_expression_queue [OF ql(2), of sub] e e' by simp_all
        note hp = handle_parentheses_step [OF op st en e [unfolded l_def sub_def]]
        note hp' = handle_parentheses_step [OF op st en e' [unfolded l_def sub_def]]
        show ?thesis
        proof (cases r1)
          case (Inl err)
          then show ?thesis using same by (simp add: hp hp')
        next
          case (Inr r)
          have "fst (handle_parentheses
                   (take start tokens @ [Res (PyFloat r)] @ drop (en + 1) tokens) s1) =
                fst (handle_parentheses
                   (take start tokens @ [Res (PyFloat r)] @ drop (en + 1) tokens) t1)"
            using "2.IH"(2) [OF op st en sub_def _ Inr q] e by (simp add: l_def)
          then show ?thesis using same Inr by (simp add: hp hp')
        qed
      qed
    qed
  qed
qed

subsection \<open>The entry point\<close>

lemma calculate_unfold:
  "calculate expression s =
     (case evaluate_expression (expression_tokens expression) (prepare expression s) of
        (Inr r, s2) \<Rightarrow>
          (Inr r,
           (add_log Log_separador
              (add_log (Log_resultado_final r) (s2\<lparr>io_result := Some r\<rparr>)))
             \<lparr>processing := False\<rparr>)
      | (Inl e, s2) \<Rightarrow>
          (Inl e,
           ((add_log (Log_error_al_procesar e) s2)\<lparr>io_result := None\<rparr>)
             \<lparr>processing := False\<rparr>))"
  by (simp add: calculate_def process_expression_def Let_def expression_tokens_def prepare_def)

lemma calculate_fst:
  "fst (calculate expression s) =
   fst (evaluate_expression (expression_tokens expression) (prepare expression s))"
  by (simp add: calculate_unfold split: prod.splits sum.splits)


lemma calculate_history_eq:
  "message_history (snd (calculate expression s)) =
   message_history (snd (evaluate_expression (expression_tokens expression) (prepare expression s)))"
  by (simp add: calculate_unfold add_log_def split: prod.splits sum.splits)


lemma prepare_simps:
  "message_queue (prepare expression s) = message_queue s"
  "message_history (prepare expression s) = []"
  "operations_performed (prepare expression s) = operations_performed s"
  by (simp_all add: prepare_def add_log_def clear_history_def clear_logs_def)

lemma calculate_det:
  assumes "message_queue s = []" and "message_queue t = []"
  shows "fst (calculate expression s) = fst (calculate expression t)"
  unfolding calculate_fst
  by (rule evaluate_det(1)) (simp_all add: prepare_simps assms)


lemma init_model_queue: "message_queue init_model = []"
  by (simp add: init_model_def)

subsection \<open>What a successful run consumes and produces\<close>

lemma operator_map_simps:
  "operator_map ''+'' = Some suma_agent"
  "operator_map ''-'' = Some resta_agent"
  "operator_map ''*'' = Some multiplicacion_agent"
  "operator_map ''/'' = Some division_agent"
  "operator_map ''**'' = Some potencia_agent"
  "operator_map ''('' = None"
  "operator_map '')'' = None"
  by (simp_all add: operator_map_def)

lemma operator_map_cases:
  "operator_map operator = Some ag \<Longrightarrow>
   operator = ''+'' \<or> operator = ''-'' \<or> operator = ''*'' \<or> operator = ''/'' \<or>
   operator = ''**''"
  by (auto simp: operator_map_def split: if_splits)

lemma operator_not_float:
  "operator_map operator = Some ag \<Longrightarrow> float_literal operator = None"
  by (drule operator_map_cases)
     (auto simp: float_literal_def unsigned_literal_def is_digit_def)

lemma float_of_agent: "float_of t = Inr x \<Longrightarrow> agent_of t = None"
proof (cases t)
  case (Lit s)
  assume "float_of t = Inr x"
  then have "float_literal s \<noteq> None" using Lit by (auto split: option.splits)
  then show ?thesis using Lit operator_not_float [of s] by (cases "operator_map s") auto
next
  case (Res v)
  then show ?thesis by simp
qed

lemma paired_append: "paired h1 \<Longrightarrow> paired h2 \<Longrightarrow> paired (h1 @ h2)"
  by (induction h1 rule: paired.induct) simp_all

lemma advances_refl: "message_queue s = [] \<Longrightarrow> advances s tokens s tokens"
  by (simp add: advances_def)

lemma advances_trans:
  assumes "advances s tokens s1 tokens1" and "advances s1 tokens1 s2 tokens2"
  shows "advances s tokens s2 tokens2"
proof -
  obtain h1 where h1: "message_history s1 = message_history s @ h1" "paired h1"
    "length h1 + 2 * operator_count tokens1 = 2 * operator_count tokens"
    using assms(1) by (auto simp: advances_def)
  obtain h2 where h2: "message_history s2 = message_history s1 @ h2" "paired h2"
    "length h2 + 2 * operator_count tokens2 = 2 * operator_count tokens1"
    using assms(2) by (auto simp: advances_def)
  have a: "message_history s2 = message_history s @ (h1 @ h2)" using h1 h2 by simp
  have b: "paired (h1 @ h2)" using h1 h2 by (simp add: paired_append)
  have c: "length (h1 @ h2) + 2 * operator_count tokens2 = 2 * operator_count tokens"
    using h1 h2 by simp
  have d: "\<And>ag. operations_performed s2 ag + occurrences ag tokens2 =
            operations_performed s ag + occurrences ag tokens"
  proof -
    fix ag
    have "operations_performed s1 ag + occurrences ag tokens1 =
            operations_performed s ag + occurrences ag tokens"
      using assms(1) by (simp add: advances_def)
    moreover have "operations_performed s2 ag + occurrences ag tokens2 =
            operations_performed s1 ag + occurrences ag tokens1"
      using assms(2) by (simp add: advances_def)
    ultimately show "operations_performed s2 ag + occurrences ag tokens2 =
            operations_performed s ag + occurrences ag tokens" by simp
  qed
  have q: "message_queue s2 = []" using assms(2) by (simp add: advances_def)
  show ?thesis unfolding advances_def using q a b c d by blast
qed

lemma window:
  assumes "0 < i" and "i + 1 < length xs"
  shows "xs = take (i - 1) xs @ [xs ! (i - 1), xs ! i, xs ! (i + 1)] @ drop (i + 2) xs"
proof -
  have a: "drop (i - 1) xs = xs ! (i - 1) # drop i xs"
    using Cons_nth_drop_Suc [of "i - 1" xs] assms by simp
  have b: "drop i xs = xs ! i # drop (i + 1) xs"
    using Cons_nth_drop_Suc [of i xs] assms by simp
  have c: "drop (i + 1) xs = xs ! (i + 1) # drop (i + 2) xs"
    using Cons_nth_drop_Suc [of "i + 1" xs] assms by simp
  have "xs = take (i - 1) xs @ drop (i - 1) xs" by simp
  also have "drop (i - 1) xs = [xs ! (i - 1), xs ! i, xs ! (i + 1)] @ drop (i + 2) xs"
    using a b c by simp
  finally show ?thesis .
qed

lemma window_count:
  assumes "0 < i" and "i + 1 < length xs"
  shows "length (filter P xs) =
         length (filter P (take (i - 1) xs @ drop (i + 2) xs)) +
         length (filter P [xs ! (i - 1), xs ! i, xs ! (i + 1)])"
proof -
  have "length (filter P xs) =
        length (filter P (take (i - 1) xs @ [xs ! (i - 1), xs ! i, xs ! (i + 1)] @
                          drop (i + 2) xs))"
    using window [OF assms] by simp
  then show ?thesis by simp
qed

lemma substitution_advances:
  assumes q: "message_queue s = []" and i: "0 < i" "i + 1 < length tokens"
    and t: "tokens ! i = Lit operator"
    and a: "float_of (tokens ! (i - 1)) = Inr a" and b: "float_of (tokens ! (i + 1)) = Inr b"
    and r: "request_operation operator a b s = (Inr r, s1)"
  shows "advances s tokens s1 (take (i - 1) tokens @ [Res r] @ drop (i + 2) tokens)"
proof -
  obtain ag where ag: "operator_map operator = Some ag"
    using r by (cases "operator_map operator") (auto simp: request_operation_unsupported)
  have f: "operation_func ag a b = Inr r"
    using r request_operation_empty_queue [OF q ag, of a b] by (auto split: sum.splits)
  have s1: "s1 = s\<lparr>message_queue := [],
             message_history := message_history s @
               [request_message ag a b, result_message ag r],
             log_messages := log_messages s @
               [Log_enviando ag a operator b, Log_operacion ag a b r, Log_recibido ag r],
             operations_performed :=
               (operations_performed s)(ag := operations_performed s ag + 1)\<rparr>"
    using r request_operation_empty_queue [OF q ag, of a b] f by simp
  have n: "ag \<noteq> io_agent" using operator_map_Some [OF ag] .
  have p: "paired [request_message ag a b, result_message ag r]"
    using n f by (simp add: exchange_def request_message_def result_message_def)
  have l: "agent_of (tokens ! (i - 1)) = None" "agent_of (tokens ! (i + 1)) = None"
    using float_of_agent a b by simp_all
  have m: "agent_of (tokens ! i) = Some ag" using t ag by simp
  have oc: "operator_count tokens =
            operator_count (take (i - 1) tokens @ [Res r] @ drop (i + 2) tokens) + 1"
    unfolding operator_count_def using window_count [OF i] l m by simp
  have occ: "\<And>ag'. occurrences ag' tokens =
            occurrences ag' (take (i - 1) tokens @ [Res r] @ drop (i + 2) tokens) +
            (if ag' = ag then 1 else 0)"
    unfolding occurrences_def using window_count [OF i] l m by simp
  show ?thesis
    unfolding advances_def
  proof (intro conjI allI)
    show "message_queue s1 = []" by (simp add: s1)
    show "\<exists>h. message_history s1 = message_history s @ h \<and> paired h \<and>
          length h + 2 * operator_count (take (i - 1) tokens @ [Res r] @ drop (i + 2) tokens) =
          2 * operator_count tokens"
      using p oc by (intro exI [of _ "[request_message ag a b, result_message ag r]"])
        (simp add: s1)
    fix ag'
    show "operations_performed s1 ag' +
          occurrences ag' (take (i - 1) tokens @ [Res r] @ drop (i + 2) tokens) =
          operations_performed s ag' + occurrences ag' tokens"
      using occ [of ag'] by (simp add: s1)
  qed
qed


lemma token_in_Lit: "token_in t operators \<Longrightarrow> t = Lit (token_str t)"
  by (cases t) simp_all

lemma evaluate_operator_advances:
  "message_queue s = [] \<Longrightarrow> evaluate_operator tokens operators i s = (Inr tokens', s') \<Longrightarrow>
   advances s tokens s' tokens'"
proof (induction tokens operators i s rule: evaluate_operator.induct)
  case (1 tokens operators i s)
  note eq = evaluate_operator.simps [of tokens operators i s]
  note run = "1.prems"(2)
  show ?case
  proof (cases "i < length tokens")
    case False
    then show ?thesis using run "1.prems"(1) by (simp add: eq advances_refl)
  next
    case lt: True
    show ?thesis
    proof (cases "token_in (tokens ! i) operators")
      case False
      then show ?thesis using "1.IH"(2) [OF lt False "1.prems"(1)] run lt by (simp add: eq)
    next
      case tin: True
      show ?thesis
      proof (cases "i = 0 \<or> i = length tokens - 1")
        case True
        then show ?thesis using lt tin run by (simp add: eq)
      next
        case pos: False
        show ?thesis
        proof (cases "float_of (tokens ! (i - 1))")
          case (Inl e)
          then show ?thesis using lt tin pos run by (simp add: eq)
        next
          case a: (Inr x)
          show ?thesis
          proof (cases "float_of (tokens ! (i + 1))")
            case (Inl e)
            then show ?thesis using lt tin pos a run by (simp add: eq)
          next
            case b: (Inr y)
            obtain rs s1 where rs: "request_operation (token_str (tokens ! i)) x y s = (rs, s1)"
              by (cases "request_operation (token_str (tokens ! i)) x y s")
            show ?thesis
            proof (cases rs)
              case (Inl e)
              then show ?thesis using lt tin pos a b rs run by (simp add: eq)
            next
              case (Inr r)
              define spliced where
                "spliced = take (i - 1) tokens @ [Res r] @ drop (i + 2) tokens"
              have q1: "message_queue s1 = []"
                using request_operation_queue [OF "1.prems"(1), of "token_str (tokens ! i)" x y]
                  rs by simp
              have i: "0 < i" "i + 1 < length tokens" using pos lt by auto
              have one: "advances s tokens s1 spliced"
                unfolding spliced_def
                using substitution_advances [OF "1.prems"(1) i token_in_Lit [OF tin] a b]
                  rs Inr by simp
              have rest: "evaluate_operator spliced operators i s1 = (Inr tokens', s')"
                using lt tin pos a b rs Inr run by (simp add: eq spliced_def)
              have "advances s1 spliced s' tokens'"
                using "1.IH"(1) [OF lt tin pos a b rs [symmetric] Inr q1] rest
                by (simp add: spliced_def)
              then show ?thesis using one advances_trans by blast
            qed
          qed
        qed
      qed
    qed
  qed
qed


lemma advances_frame:
  assumes adv: "advances s0 a s' b"
    and h: "message_history s0 = message_history s"
    and c: "operations_performed s0 = operations_performed s"
    and oc: "operator_count A + operator_count b = operator_count a + operator_count B"
    and occ: "\<And>ag. occurrences ag A + occurrences ag b = occurrences ag a + occurrences ag B"
  shows "advances s A s' B"
proof -
  obtain hs where hs: "message_history s' = message_history s0 @ hs" "paired hs"
    "length hs + 2 * operator_count b = 2 * operator_count a"
    using adv by (auto simp: advances_def)
  have q: "message_queue s' = []" using adv by (simp add: advances_def)
  have l: "length hs + 2 * operator_count B = 2 * operator_count A"
    using hs(3) oc by arith
  have d: "\<And>ag. operations_performed s' ag + occurrences ag B =
            operations_performed s ag + occurrences ag A"
  proof -
    fix ag
    have "operations_performed s' ag + occurrences ag b =
          operations_performed s0 ag + occurrences ag a"
      using adv by (simp add: advances_def)
    then show "operations_performed s' ag + occurrences ag B =
            operations_performed s ag + occurrences ag A"
      using occ [of ag] c by simp
  qed
  show ?thesis unfolding advances_def using q hs(1,2) h l d by auto
qed

lemma find_start_nth:
  "find_start ts i start = Some k \<Longrightarrow>
   start = Some k \<or> (i \<le> k \<and> k < i + length ts \<and> ts ! (k - i) = Lit ''('')"
proof (induction ts i start rule: find_start.induct)
  case (1 i start)
  then show ?case by simp
next
  case (2 t ts i start)
  have "find_start ts (i + 1) (if t = Lit ''('' then Some i else start) = Some k"
    using "2.prems" by simp
  from "2.IH" [OF this]
  show ?case by (auto split: if_splits simp: nth_Cons')
qed

lemma find_end_nth:
  "find_end ts i = Some k \<Longrightarrow> i \<le> k \<and> k < i + length ts \<and> ts ! (k - i) = Lit '')''"
proof (induction ts i rule: find_end.induct)
  case (1 i)
  then show ?case by simp
next
  case (2 t ts i)
  show ?case
  proof (cases "t = Lit '')''")
    case True
    then show ?thesis using "2.prems" by simp
  next
    case False
    then have "find_end ts (i + 1) = Some k" using "2.prems" by simp
    from "2.IH" [OF False this] show ?thesis by (auto simp: nth_Cons')
  qed
qed

lemma group:
  assumes "start < en" and "en < length xs"
  shows "xs = take start xs @ [xs ! start] @ take (en - (start + 1)) (drop (start + 1) xs) @
              [xs ! en] @ drop (en + 1) xs"
proof -
  have a: "drop start xs = xs ! start # drop (start + 1) xs"
    using Cons_nth_drop_Suc [of start xs] assms by simp
  have b: "drop (en - (start + 1)) (drop (start + 1) xs) = drop en xs"
    using assms by simp
  have c: "drop en xs = xs ! en # drop (en + 1) xs"
    using Cons_nth_drop_Suc [of en xs] assms by simp
  have d: "drop (start + 1) xs =
           take (en - (start + 1)) (drop (start + 1) xs) @
           drop (en - (start + 1)) (drop (start + 1) xs)"
    by (rule append_take_drop_id [symmetric])
  have "xs = take start xs @ drop start xs" by simp
  also have "drop start xs = [xs ! start] @ drop (start + 1) xs" using a by simp
  also have "drop (start + 1) xs =
             take (en - (start + 1)) (drop (start + 1) xs) @ [xs ! en] @ drop (en + 1) xs"
    using d b c by simp
  finally show ?thesis .
qed

lemma group_count:
  assumes "start < en" and "en < length xs"
  shows "length (filter P xs) =
         length (filter P (take start xs @ drop (en + 1) xs)) +
         length (filter P (take (en - (start + 1)) (drop (start + 1) xs))) +
         length (filter P [xs ! start, xs ! en])"
proof -
  have "length (filter P xs) =
        length (filter P (take start xs @ [xs ! start] @
                  take (en - (start + 1)) (drop (start + 1) xs) @
                  [xs ! en] @ drop (en + 1) xs))"
    using group [OF assms] by simp
  then show ?thesis by simp
qed

lemma apply_tiers_advances:
  assumes q: "message_queue s = []" and run: "apply_tiers tokens s = (Inr v, s')"
  shows "advances s tokens s' []"
proof -
  obtain r2 s2 where e2: "evaluate_operator tokens [''**''] 0 s = (r2, s2)"
    by (cases "evaluate_operator tokens [''**''] 0 s")
  obtain tokens2 where t2: "r2 = Inr tokens2"
    using run e2 by (cases r2) (simp_all add: apply_tiers_def)
  obtain r3 s3 where e3: "evaluate_operator tokens2 [''*'', ''/''] 0 s2 = (r3, s3)"
    by (cases "evaluate_operator tokens2 [''*'', ''/''] 0 s2")
  obtain tokens3 where t3: "r3 = Inr tokens3"
    using run e2 t2 e3 by (cases r3) (simp_all add: apply_tiers_def)
  obtain r4 s4 where e4: "evaluate_operator tokens3 [''+'', ''-''] 0 s3 = (r4, s4)"
    by (cases "evaluate_operator tokens3 [''+'', ''-''] 0 s3")
  obtain tokens4 where t4: "r4 = Inr tokens4"
    using run e2 t2 e3 t3 e4 by (cases r4) (simp_all add: apply_tiers_def)
  have fin: "length tokens4 = 1 \<and> float_of (tokens4 ! 0) = Inr v \<and> s4 = s'"
    using run e2 t2 e3 t3 e4 t4
    by (simp add: apply_tiers_def split: if_splits sum.splits)
  have q2: "message_queue s2 = []" using evaluate_operator_queue [OF q e2] .
  have q3: "message_queue s3 = []" using evaluate_operator_queue [OF q2 e3] .
  have a2: "advances s tokens s2 tokens2"
    using evaluate_operator_advances [OF q] e2 t2 by simp
  have a3: "advances s2 tokens2 s3 tokens3"
    using evaluate_operator_advances [OF q2] e3 t3 by simp
  have a4: "advances s3 tokens3 s4 tokens4"
    using evaluate_operator_advances [OF q3] e4 t4 by simp
  have all: "advances s tokens s' tokens4"
    using advances_trans [OF advances_trans [OF a2 a3] a4] fin by simp
  obtain t where t: "tokens4 = [t]" using fin by (cases tokens4) auto
  have n: "agent_of t = None" using fin t float_of_agent [of t v] by simp
  show ?thesis
    by (rule advances_frame [OF all]) (simp_all add: t n operator_count_def occurrences_def)
qed

lemma evaluate_advances:
  shows "message_queue s = [] \<Longrightarrow> evaluate_expression tokens s = (Inr v, s') \<Longrightarrow>
         advances s tokens s' []"
    and "message_queue s = [] \<Longrightarrow> handle_parentheses tokens s = (Inr tokens', s') \<Longrightarrow>
         advances s tokens s' tokens'"
proof (induction tokens s and tokens s arbitrary: v s' and tokens' s'
       rule: evaluate_expression_handle_parentheses.induct)
  case (1 tokens s)
  obtain r1 s1 where h: "handle_parentheses tokens s = (r1, s1)"
    by (cases "handle_parentheses tokens s")
  obtain tokens1 where t1: "r1 = Inr tokens1"
    using "1.prems"(2) h by (cases r1) (simp_all add: evaluate_expression_tiers)
  have a1: "advances s tokens s1 tokens1"
    using "1.IH" [OF "1.prems"(1)] h t1 by simp
  have q1: "message_queue s1 = []"
    using handle_parentheses_queue [OF "1.prems"(1), of tokens] h by simp
  have "apply_tiers tokens1 s1 = (Inr v, s')"
    using "1.prems"(2) h t1 by (simp add: evaluate_expression_tiers)
  then have "advances s1 tokens1 s' []" by (rule apply_tiers_advances [OF q1])
  then show ?case using a1 advances_trans by blast
next
  case (2 tokens s)
  note eq = handle_parentheses.simps [of tokens s]
  note q = "2.prems"(1)
  note run = "2.prems"(2)
  show ?case
  proof (cases "Lit ''('' \<in> set tokens")
    case False
    then show ?thesis using run q by (simp add: eq advances_refl)
  next
    case op: True
    show ?thesis
    proof (cases "find_start tokens 0 None")
      case None
      then show ?thesis using op run q by (simp add: eq advances_refl)
    next
      case st: (Some start)
      show ?thesis
      proof (cases "find_end (drop (start + 1) tokens) (start + 1)")
        case None
        then show ?thesis using op st run by (simp add: eq)
      next
        case en: (Some en)
        define sub where "sub = take (en - (start + 1)) (drop (start + 1) tokens)"
        define l where "l = Log_evaluando_parentesis sub"
        obtain r1 s1 where e: "evaluate_expression sub (add_log l s) = (r1, s1)"
          by (cases "evaluate_expression sub (add_log l s)")
        note hp = handle_parentheses_step [OF op st en e [unfolded l_def sub_def]]
        obtain r where r: "r1 = Inr r" using run hp by (cases r1) simp_all
        define spliced where
          "spliced = take start tokens @ [Res (PyFloat r)] @ drop (en + 1) tokens"
        have ql: "message_queue (add_log l s) = []" using q by (simp add: add_log_def)
        have q1: "message_queue s1 = []"
          using evaluate_expression_queue [OF ql, of sub] e by simp
        have inner: "advances (add_log l s) sub s1 []"
          using "2.IH"(1) [OF op st en sub_def] ql e r by (simp add: l_def)
        have b1: "start < length tokens \<and> tokens ! start = Lit ''(''"
          using find_start_nth [OF st] by simp
        have b2: "start + 1 \<le> en \<and> en < length tokens \<and> tokens ! en = Lit '')''"
          using find_end_nth [OF en] b1 by auto
        have b: "start < en" "en < length tokens" using b2 by auto
        have par: "agent_of (tokens ! start) = None" "agent_of (tokens ! en) = None"
          using b1 b2 by (simp_all add: operator_map_simps)
        have one: "advances s tokens s1 spliced"
        proof (rule advances_frame [OF inner])
          show "message_history (add_log l s) = message_history s" by (simp add: add_log_def)
          show "operations_performed (add_log l s) = operations_performed s"
            by (simp add: add_log_def)
          show "operator_count tokens + operator_count [] =
                operator_count sub + operator_count spliced"
            unfolding operator_count_def spliced_def sub_def
            using group_count [OF b, of "\<lambda>t. agent_of t \<noteq> None"] par by simp
          show "\<And>ag. occurrences ag tokens + occurrences ag [] =
                occurrences ag sub + occurrences ag spliced"
            unfolding occurrences_def spliced_def sub_def
            using group_count [OF b] par by simp
        qed
        have rest: "handle_parentheses spliced s1 = (Inr tokens', s')"
          using run hp r by (simp add: spliced_def)
        have "advances s1 spliced s' tokens'"
          using "2.IH"(2) [OF op st en sub_def _ r q1] e rest
          by (simp add: l_def spliced_def)
        then show ?thesis using one advances_trans by blast
      qed
    qed
  qed
qed

subsection \<open>Counters and the log\<close>

lemma balanced_send_message: "balanced ag c (send_message m s) = balanced ag c s"
  by (simp add: balanced_def send_message_def Let_def)

lemma balanced_get_messages_for:
  "balanced ag c (snd (get_messages_for a s)) = balanced ag c s"
  by (simp add: balanced_def get_messages_for_def)

lemma balanced_perform_operation:
  "balanced ag c s \<Longrightarrow> balanced ag c (snd (perform_operation ag' a b s))"
  by (cases "operation_func ag' a b")
     (auto simp: balanced_def perform_operation_def add_log_def applications_def)

lemma balanced_step_messages:
  "balanced ag c s \<Longrightarrow> balanced ag c (snd (step_messages ag' msgs s))"
proof (induction msgs arbitrary: s)
  case Nil
  then show ?case by simp
next
  case (Cons m msgs)
  show ?case
  proof (cases "msg_type m = ''operation''")
    case False
    then show ?thesis using Cons by simp
  next
    case op: True
    show ?thesis
    proof (cases "content m")
      case (Result r)
      then show ?thesis using op Cons.prems by simp
    next
      case (Operands a b)
      obtain rs s1 where p: "perform_operation ag' a b s = (rs, s1)"
        by (cases "perform_operation ag' a b s")
      have b1: "balanced ag c s1"
        using balanced_perform_operation [OF Cons.prems, of ag' a b] p by simp
      show ?thesis
      proof (cases rs)
        case (Inl e)
        then show ?thesis using op Operands p b1 by simp
      next
        case (Inr r)
        have "balanced ag c (send_message
                 \<lparr>sender = ag', receiver = sender m, content = Result r,
                    msg_type = ''result''\<rparr> s1)"
          using b1 by (simp add: balanced_send_message)
        from Cons.IH [OF this] show ?thesis using op Operands p Inr by simp
      qed
    qed
  qed
qed

lemma balanced_step: "balanced ag c s \<Longrightarrow> balanced ag c (snd (step ag' s))"
proof (cases "ag' = io_agent")
  case True
  assume "balanced ag c s"
  then show ?thesis using True by (simp add: step_def)
next
  case False
  assume b: "balanced ag c s"
  obtain ms s1 where g: "get_messages_for ag' s = (ms, s1)"
    by (cases "get_messages_for ag' s")
  have "balanced ag c s1" using balanced_get_messages_for [of ag c ag' s] g b by simp
  from balanced_step_messages [OF this, of ag' ms] show ?thesis
    using False g by (simp add: step_def)
qed

lemma balanced_add_log:
  "applications ag [l] = 0 \<Longrightarrow> balanced ag c (add_log l s) = balanced ag c s"
  by (simp add: balanced_def add_log_def applications_def)

lemma balanced_request_operation:
  assumes "balanced ag c s"
  shows "balanced ag c (snd (request_operation operator a b s))"
proof (cases "operator_map operator")
  case None
  then show ?thesis using assms by (simp add: request_operation_def)
next
  case (Some ag')
  define s2 where "s2 = add_log (Log_enviando ag' a operator b)
     (send_message \<lparr>sender = io_agent, receiver = ag', content = Operands a b,
                     msg_type = ''operation''\<rparr> s)"
  have b2: "balanced ag c s2"
    using assms by (simp add: s2_def balanced_add_log applications_def balanced_send_message)
  obtain rs s3 where st: "step ag' s2 = (rs, s3)" by (cases "step ag' s2")
  have b3: "balanced ag c s3" using balanced_step [OF b2, of ag'] st by simp
  obtain ms s4 where g: "get_messages_for io_agent s3 = (ms, s4)"
    by (cases "get_messages_for io_agent s3")
  have b4: "balanced ag c s4" using balanced_get_messages_for [of ag c io_agent s3] g b3 by simp
  have "request_operation operator a b s =
        (case rs of
           Inl e \<Rightarrow> (Inl e, s3)
         | Inr u \<Rightarrow>
             (case ms of
                [] \<Rightarrow> (Inl (RuntimeError (No_se_recibio_respuesta_del_agente ag')), s4)
              | r # rs \<Rightarrow>
                 (case content r of
                    Result v \<Rightarrow> (Inr v, add_log (Log_recibido ag' v) s4)
                  | Operands a b \<Rightarrow> (Inl (KeyError ''result''), s4))))"
    using Some st g by (simp add: request_operation_def Let_def s2_def split: sum.splits)
  then show ?thesis using b3 b4
    by (auto split: sum.splits list.splits content.splits
        simp: balanced_add_log applications_def)
qed

lemma balanced_evaluate_expression:
  "balanced ag c s \<Longrightarrow> balanced ag c (snd (evaluate_expression tokens s))"
  by (rule evaluate_state(1) [where J = "balanced ag c"])
     (simp_all add: balanced_request_operation balanced_add_log applications_def)

lemma applications_append:
  "applications ag (xs @ ys) = applications ag xs + applications ag ys"
  by (simp add: applications_def)

subsection \<open>The tokenizer\<close>

declare tokenize_loop.simps [simp del]
declare findall.simps [simp del]

lemma dot_not_digit: "\<not> is_digit CHR ''.''"
  by (simp add: is_digit_def)

lemma purely_numeric:
  "isdigit (replace_dot t) = spec_purely_numeric t"
proof -
  have a: "list_all is_digit (filter (\<lambda>c. c \<noteq> CHR ''.'') t) \<longleftrightarrow>
           (\<forall>c\<in>set t. is_digit c \<or> c = CHR ''.'')"
    unfolding list_all_iff by auto
  have b: "spec_purely_numeric t \<longleftrightarrow>
           (\<forall>c\<in>set t. is_digit c \<or> c = CHR ''.'') \<and> (\<exists>c\<in>set t. is_digit c)"
    by (simp add: spec_purely_numeric_def list_all_iff list_ex_iff is_digit_def)
  have c: "filter (\<lambda>c. c \<noteq> CHR ''.'') t \<noteq> [] \<longleftrightarrow> (\<exists>c\<in>set t. c \<noteq> CHR ''.'')"
    unfolding filter_empty_conv by blast
  have d: "isdigit (replace_dot t) \<longleftrightarrow>
           (\<exists>c\<in>set t. c \<noteq> CHR ''.'') \<and> (\<forall>c\<in>set t. is_digit c \<or> c = CHR ''.'')"
    unfolding isdigit_def replace_dot_def using a c by blast
  have e: "\<And>x. is_digit x \<Longrightarrow> x \<noteq> CHR ''.''"
    using dot_not_digit by blast
  show ?thesis
  proof
    assume "isdigit (replace_dot t)"
    then show "spec_purely_numeric t" using b d by blast
  next
    assume "spec_purely_numeric t"
    then have all: "\<forall>c\<in>set t. is_digit c \<or> c = CHR ''.''"
      and ex: "\<exists>c\<in>set t. is_digit c"
      using b by simp_all
    from ex obtain x where x: "x \<in> set t" "is_digit x" ..
    have "x \<noteq> CHR ''.''" using x(2) by (rule e)
    then have "\<exists>c\<in>set t. c \<noteq> CHR ''.''" using x(1) ..
    then show "isdigit (replace_dot t)" using all d by simp
  qed
qed

lemma not_numeric_minus: "\<not> spec_purely_numeric ''-''"
  by (simp add: spec_purely_numeric_def)

lemma tokenize_loop_spec:
  "i \<le> length tokens \<Longrightarrow> \<not> (0 < i \<and> spec_folds_at tokens (i - 1)) \<Longrightarrow>
   tokenize_loop tokens i processed_tokens =
     processed_tokens @ concat (map (spec_fold_step tokens) [i..<length tokens])"
proof (induction tokens i processed_tokens rule: tokenize_loop.induct)
  case (1 tokens i processed_tokens)
  note eq = tokenize_loop.simps [of tokens i processed_tokens]
  show ?case
  proof (cases "i < length tokens")
    case False
    then have "tokenize_loop tokens i processed_tokens = processed_tokens"
      by (subst eq) simp
    then show ?thesis using False by simp
  next
    case lt: True
    have up: "[i..<length tokens] = i # [Suc i..<length tokens]"
      using lt by (simp add: upt_conv_Cons)
    show ?thesis
    proof (cases "spec_folds_at tokens i")
      case f: True
      have c: "tokens ! i = ''-'' \<and>
            (i = 0 \<or> tokens ! (i - 1) \<in> set [''('', ''+'', ''-'', ''*'', ''/'', ''**'']) \<and>
            i + 1 < length tokens \<and> isdigit (replace_dot (tokens ! (i + 1)))"
        using f by (auto simp: spec_folds_at_def purely_numeric)
      have n: "\<not> spec_folds_at tokens (i + 1)"
        using c not_numeric_minus by (auto simp: spec_folds_at_def purely_numeric)
      have up2: "[Suc i..<length tokens] = Suc i # [Suc (Suc i)..<length tokens]"
        using c by (simp add: upt_conv_Cons)
      have ih: "tokenize_loop tokens (i + 2) (processed_tokens @ [''-'' @ tokens ! (i + 1)]) =
                (processed_tokens @ [''-'' @ tokens ! (i + 1)]) @
                concat (map (spec_fold_step tokens) [i + 2..<length tokens])"
        using "1.IH"(1) [OF lt c] c n by simp
      have s1: "spec_fold_step tokens i = [''-'' @ tokens ! (i + 1)]"
        using f by (simp add: spec_fold_step_def)
      have s2: "spec_fold_step tokens (Suc i) = []"
        using f n by (simp add: spec_fold_step_def)
      have "tokenize_loop tokens i processed_tokens =
            tokenize_loop tokens (i + 2) (processed_tokens @ [''-'' @ tokens ! (i + 1)])"
        using lt c by (subst eq) simp
      then show ?thesis using ih up up2 s1 s2 by simp
    next
      case nf: False
      have c: "\<not> (tokens ! i = ''-'' \<and>
            (i = 0 \<or> tokens ! (i - 1) \<in> set [''('', ''+'', ''-'', ''*'', ''/'', ''**'']) \<and>
            i + 1 < length tokens \<and> isdigit (replace_dot (tokens ! (i + 1))))"
        using nf lt by (auto simp: spec_folds_at_def purely_numeric)
      have ih: "tokenize_loop tokens (i + 1) (processed_tokens @ [tokens ! i]) =
                (processed_tokens @ [tokens ! i]) @
                concat (map (spec_fold_step tokens) [i + 1..<length tokens])"
        using "1.IH"(2) [OF lt c] lt nf by simp
      have s1: "spec_fold_step tokens i = [tokens ! i]"
        using nf "1.prems"(2) by (simp add: spec_fold_step_def)
      have "tokenize_loop tokens i processed_tokens =
            tokenize_loop tokens (i + 1) (processed_tokens @ [tokens ! i])"
        using lt c by (subst eq) (simp only: if_True if_False)
      then show ?thesis using ih up s1 by simp
    qed
  qed
qed

subsection \<open>The two scans for a pair of parentheses\<close>

lemma find_start_append:
  "find_start (xs @ ys) i start = find_start ys (i + length xs) (find_start xs i start)"
  by (induction xs i start rule: find_start.induct) simp_all

lemma find_start_absent: "Lit ''('' \<notin> set ts \<Longrightarrow> find_start ts i start = start"
  by (induction ts i start rule: find_start.induct) auto

lemma find_start_last:
  "Lit ''('' \<notin> set rest \<Longrightarrow> find_start (pre @ Lit ''('' # rest) 0 None = Some (length pre)"
  by (simp add: find_start_append find_start_absent)

lemma find_end_absent: "Lit '')'' \<notin> set ts \<Longrightarrow> find_end ts i = None"
  by (induction ts i rule: find_end.induct) auto

lemma find_end_first:
  "Lit '')'' \<notin> set inner \<Longrightarrow> find_end (inner @ Lit '')'' # post) i = Some (i + length inner)"
  by (induction inner arbitrary: i) auto

subsection \<open>An operator without a left operand\<close>

lemma lacks_from_append:
  "lacks_from p (xs @ ys) =
     (lacks_from p xs \<or> lacks_from (if xs = [] then p else opens (last xs)) ys)"
  by (induction xs arbitrary: p) auto

lemma float_not_operator:
  assumes "float_of t = Inr x"
  shows "\<not> is_operator t" and "\<not> opens t"
proof -
  have a: "agent_of t = None" using assms by (rule float_of_agent)
  show n: "\<not> is_operator t"
  proof (cases t)
    case (Lit s)
    then show ?thesis using a by (auto simp: is_operator_def operator_map_def)
  next
    case (Res v)
    then show ?thesis by (simp add: is_operator_def)
  qed
  have "t \<noteq> Lit ''(''"
    using assms by (auto simp: float_literal_def unsigned_literal_def is_digit_def)
  then show "\<not> opens t" using n by (simp add: opens_def)
qed

lemma lacks_substitute:
  assumes i: "0 < i" "i + 1 < length tokens"
    and a: "float_of (tokens ! (i - 1)) = Inr a" and b: "float_of (tokens ! (i + 1)) = Inr b"
  shows "lacks_from p (take (i - 1) tokens @ [Res r] @ drop (i + 2) tokens) =
         lacks_from p tokens"
proof -
  define A where "A = take (i - 1) tokens"
  define B where "B = drop (i + 2) tokens"
  define x where "x = tokens ! (i - 1)"
  define y where "y = tokens ! (i + 1)"
  have tok: "tokens = A @ [x, tokens ! i, y] @ B"
    unfolding A_def B_def x_def y_def by (rule window [OF i])
  have fx: "\<not> is_operator x" "\<not> opens x"
    using float_not_operator [OF a] by (simp_all add: x_def)
  have fy: "\<not> is_operator y" "\<not> opens y"
    using float_not_operator [OF b] by (simp_all add: y_def)
  have fr: "\<not> is_operator (Res r)" "\<not> opens (Res r)"
    by (simp_all add: is_operator_def opens_def)
  have "lacks_from p (A @ [Res r] @ B) = lacks_from p (A @ [x, tokens ! i, y] @ B)"
    using fx fy fr by (simp add: lacks_from_append)
  also have "\<dots> = lacks_from p tokens" using tok by simp
  finally show ?thesis unfolding A_def B_def .
qed


lemma evaluate_operator_lacks:
  "lacks_left_operand tokens \<Longrightarrow> evaluate_operator tokens operators i s = (Inr tokens', s') \<Longrightarrow>
   lacks_left_operand tokens'"
proof (induction tokens operators i s rule: evaluate_operator.induct)
  case (1 tokens operators i s)
  note eq = evaluate_operator.simps [of tokens operators i s]
  note lack = "1.prems"(1)
  note run = "1.prems"(2)
  show ?case
  proof (cases "i < length tokens")
    case False
    then show ?thesis using run lack by (simp add: eq)
  next
    case lt: True
    show ?thesis
    proof (cases "token_in (tokens ! i) operators")
      case False
      then show ?thesis using "1.IH"(2) [OF lt False lack] run lt by (simp add: eq)
    next
      case tin: True
      show ?thesis
      proof (cases "i = 0 \<or> i = length tokens - 1")
        case True
        then show ?thesis using lt tin run by (simp add: eq)
      next
        case pos: False
        show ?thesis
        proof (cases "float_of (tokens ! (i - 1))")
          case (Inl e)
          then show ?thesis using lt tin pos run by (simp add: eq)
        next
          case a: (Inr x)
          show ?thesis
          proof (cases "float_of (tokens ! (i + 1))")
            case (Inl e)
            then show ?thesis using lt tin pos a run by (simp add: eq)
          next
            case b: (Inr y)
            obtain rs s1 where rs: "request_operation (token_str (tokens ! i)) x y s = (rs, s1)"
              by (cases "request_operation (token_str (tokens ! i)) x y s")
            show ?thesis
            proof (cases rs)
              case (Inl e)
              then show ?thesis using lt tin pos a b rs run by (simp add: eq)
            next
              case (Inr r)
              define spliced where
                "spliced = take (i - 1) tokens @ [Res r] @ drop (i + 2) tokens"
              have i: "0 < i" "i + 1 < length tokens" using pos lt by auto
              have one: "lacks_left_operand spliced"
                unfolding spliced_def lacks_left_operand_def
                using lacks_substitute [OF i a b] lack
                by (simp add: lacks_left_operand_def)
              have rest: "evaluate_operator spliced operators i s1 = (Inr tokens', s')"
                using lt tin pos a b rs Inr run by (simp add: eq spliced_def)
              show ?thesis
                using "1.IH"(1) [OF lt tin pos a b rs [symmetric] Inr] one rest
                by (simp add: spliced_def)
            qed
          qed
        qed
      qed
    qed
  qed
qed

lemma apply_tiers_lacks:
  assumes "lacks_left_operand tokens"
  shows "isl (fst (apply_tiers tokens s))"
proof (rule ccontr)
  assume "\<not> isl (fst (apply_tiers tokens s))"
  then obtain v s' where run: "apply_tiers tokens s = (Inr v, s')"
    by (cases "apply_tiers tokens s"; cases "fst (apply_tiers tokens s)") auto
  obtain r2 s2 where e2: "evaluate_operator tokens [''**''] 0 s = (r2, s2)"
    by (cases "evaluate_operator tokens [''**''] 0 s")
  obtain tokens2 where t2: "r2 = Inr tokens2"
    using run e2 by (cases r2) (simp_all add: apply_tiers_def)
  obtain r3 s3 where e3: "evaluate_operator tokens2 [''*'', ''/''] 0 s2 = (r3, s3)"
    by (cases "evaluate_operator tokens2 [''*'', ''/''] 0 s2")
  obtain tokens3 where t3: "r3 = Inr tokens3"
    using run e2 t2 e3 by (cases r3) (simp_all add: apply_tiers_def)
  obtain r4 s4 where e4: "evaluate_operator tokens3 [''+'', ''-''] 0 s3 = (r4, s4)"
    by (cases "evaluate_operator tokens3 [''+'', ''-''] 0 s3")
  obtain tokens4 where t4: "r4 = Inr tokens4"
    using run e2 t2 e3 t3 e4 by (cases r4) (simp_all add: apply_tiers_def)
  have fin: "length tokens4 = 1 \<and> float_of (tokens4 ! 0) = Inr v"
    using run e2 t2 e3 t3 e4 t4
    by (simp add: apply_tiers_def split: if_splits sum.splits)
  have l2: "lacks_left_operand tokens2"
    using evaluate_operator_lacks [OF assms] e2 t2 by simp
  have l3: "lacks_left_operand tokens3"
    using evaluate_operator_lacks [OF l2] e3 t3 by simp
  have l4: "lacks_left_operand tokens4"
    using evaluate_operator_lacks [OF l3] e4 t4 by simp
  obtain t where t: "tokens4 = [t]" using fin by (cases tokens4) auto
  have "\<not> is_operator t" using fin t float_not_operator(1) [of t v] by simp
  then show False using l4 t by (simp add: lacks_left_operand_def)
qed

lemma group_lacks:
  assumes b: "start < en" "en < length tokens"
    and op: "tokens ! start = Lit ''(''" and cl: "tokens ! en = Lit '')''"
    and lack: "lacks_from p tokens"
  shows "lacks_from True (take (en - (start + 1)) (drop (start + 1) tokens)) \<or>
         lacks_from p (take start tokens @ [Res r] @ drop (en + 1) tokens)"
proof -
  define A where "A = take start tokens"
  define B where "B = drop (en + 1) tokens"
  define sub where "sub = take (en - (start + 1)) (drop (start + 1) tokens)"
  have tok: "tokens = A @ [Lit ''(''] @ sub @ [Lit '')''] @ B"
    using group [OF b] op cl by (simp add: A_def B_def sub_def)
  have p1: "\<not> is_operator (Lit ''('')" "opens (Lit ''('')"
    "\<not> is_operator (Lit '')'')" "\<not> opens (Lit '')'')"
    "\<not> is_operator (Res r)" "\<not> opens (Res r)"
    by (simp_all add: is_operator_def opens_def)
  have "lacks_from p (A @ [Lit ''(''] @ sub @ [Lit '')''] @ B)" using lack tok by simp
  then have "lacks_from True sub \<or> lacks_from p (A @ [Res r] @ B)"
    using p1 by (auto simp: lacks_from_append split: if_splits)
  then show ?thesis unfolding A_def B_def sub_def .
qed

lemma evaluate_lacks:
  shows "lacks_left_operand tokens \<Longrightarrow> isl (fst (evaluate_expression tokens s))"
    and "lacks_left_operand tokens \<Longrightarrow> handle_parentheses tokens s = (Inr tokens', s') \<Longrightarrow>
         lacks_left_operand tokens'"
proof (induction tokens s and tokens s arbitrary: and tokens' s'
       rule: evaluate_expression_handle_parentheses.induct)
  case (1 tokens s)
  obtain r1 s1 where h: "handle_parentheses tokens s = (r1, s1)"
    by (cases "handle_parentheses tokens s")
  show ?case
  proof (cases r1)
    case (Inl e)
    then show ?thesis using h by (simp add: evaluate_expression_tiers)
  next
    case (Inr tokens1)
    have "lacks_left_operand tokens1" using "1.IH" [OF "1.prems"] h Inr by simp
    then have "isl (fst (apply_tiers tokens1 s1))" by (rule apply_tiers_lacks)
    then show ?thesis using h Inr by (simp add: evaluate_expression_tiers)
  qed
next
  case (2 tokens s)
  note eq = handle_parentheses.simps [of tokens s]
  note lack = "2.prems"(1)
  note run = "2.prems"(2)
  show ?case
  proof (cases "Lit ''('' \<in> set tokens")
    case False
    then show ?thesis using run lack by (simp add: eq)
  next
    case op: True
    show ?thesis
    proof (cases "find_start tokens 0 None")
      case None
      then show ?thesis using op run lack by (simp add: eq)
    next
      case st: (Some start)
      show ?thesis
      proof (cases "find_end (drop (start + 1) tokens) (start + 1)")
        case None
        then show ?thesis using op st run by (simp add: eq)
      next
        case en: (Some en)
        define sub where "sub = take (en - (start + 1)) (drop (start + 1) tokens)"
        define l where "l = Log_evaluando_parentesis sub"
        obtain r1 s1 where e: "evaluate_expression sub (add_log l s) = (r1, s1)"
          by (cases "evaluate_expression sub (add_log l s)")
        note hp = handle_parentheses_step [OF op st en e [unfolded l_def sub_def]]
        obtain r where r: "r1 = Inr r" using run hp by (cases r1) simp_all
        define spliced where
          "spliced = take start tokens @ [Res (PyFloat r)] @ drop (en + 1) tokens"
        have b1: "start < length tokens \<and> tokens ! start = Lit ''(''"
          using find_start_nth [OF st] by simp
        have b2: "start + 1 \<le> en \<and> en < length tokens \<and> tokens ! en = Lit '')''"
          using find_end_nth [OF en] b1 by auto
        have b: "start < en" "en < length tokens" using b2 by auto
        have inner: "\<not> lacks_left_operand sub"
        proof
          assume "lacks_left_operand sub"
          then have "isl (fst (evaluate_expression sub (add_log l s)))"
            using "2.IH"(1) [OF op st en sub_def] by (simp add: l_def)
          then show False using e r by simp
        qed
        have one: "lacks_left_operand spliced"
          using group_lacks [OF b, of True "PyFloat r"] b1 b2 lack inner
          by (simp add: lacks_left_operand_def spliced_def sub_def)
        have rest: "handle_parentheses spliced s1 = (Inr tokens', s')"
          using run hp r by (simp add: spliced_def)
        show ?thesis
          using "2.IH"(2) [OF op st en sub_def _ r] e one rest
          by (simp add: l_def spliced_def)
      qed
    qed
  qed
qed


lemma expression_tokens_spec_fold:
  "expression_tokens expression = map Lit (spec_fold (raw_tokens expression))"
  using tokenize_loop_spec [of 0 "raw_tokens expression" "[]"]
  by (simp add: expression_tokens_def tokenize_def raw_tokens_def spec_fold_def)

lemma lacks_pair:
  "opens l \<Longrightarrow> is_operator m \<Longrightarrow> lacks_from p (X @ l # m # Y)"
  by (simp add: lacks_from_append)

lemma opener_not_numeric:
  "t \<in> set [''+'', ''-'', ''*'', ''/'', ''**'', ''(''] \<Longrightarrow> \<not> spec_purely_numeric t"
  by (auto simp: spec_purely_numeric_def)

lemma opener_opens:
  "t \<in> set [''+'', ''-'', ''*'', ''/'', ''**'', ''(''] \<Longrightarrow> opens (Lit t)"
  by (auto simp: opens_def is_operator_def)

lemma unary_minus_survives:
  assumes k: "k + 1 < length raw" and m: "raw ! k = ''-''" and p: "raw ! (k + 1) = ''(''"
    and u: "k = 0 \<or> raw ! (k - 1) \<in> set [''+'', ''-'', ''*'', ''/'', ''**'', ''('']"
  shows "lacks_left_operand (map Lit (spec_fold raw))"
proof -
  have nk: "\<not> spec_folds_at raw k"
    using p opener_not_numeric [of "''(''"] by (simp add: spec_folds_at_def)
  have minus: "is_operator (Lit ''-'')" by (simp add: is_operator_def)
  show ?thesis
  proof (cases "k = 0")
    case True
    have up: "[0..<length raw] = 0 # [Suc 0..<length raw]"
      by (rule upt_conv_Cons) (use k in auto)
    have s0: "spec_fold_step raw 0 = [''-'']"
      using nk m True by (simp add: spec_fold_step_def)
    have "spec_fold raw =
          spec_fold_step raw 0 @ concat (map (spec_fold_step raw) [Suc 0..<length raw])"
      unfolding spec_fold_def by (subst up) simp
    then have "map Lit (spec_fold raw) =
          Lit ''-'' # map Lit (concat (map (spec_fold_step raw) [Suc 0..<length raw]))"
      by (simp only: s0 append_Cons append_Nil list.map)
    then show ?thesis using minus by (simp only: lacks_left_operand_def lacks_from.simps simp_thms)
  next
    case False
    then have k0: "0 < k" by simp
    have o: "raw ! (k - 1) \<in> set [''+'', ''-'', ''*'', ''/'', ''**'', ''('']"
      using u False by simp
    have n1: "\<not> spec_folds_at raw (k - 1)"
      using m k0 not_numeric_minus by (simp add: spec_folds_at_def)
    have n2: "\<not> (0 < k - 1 \<and> spec_folds_at raw (k - 1 - 1))"
    proof
      assume h: "0 < k - 1 \<and> spec_folds_at raw (k - 1 - 1)"
      then have "0 < k - 1" by (rule conjunct1)
      then have e: "k - 1 - 1 + 1 = k - 1" by arith
      have "spec_purely_numeric (raw ! (k - 1 - 1 + 1))"
        using h unfolding spec_folds_at_def by (elim conjE)
      then have "spec_purely_numeric (raw ! (k - 1))" by (simp only: e)
      then show False using opener_not_numeric [OF o] by simp
    qed
    have s1: "spec_fold_step raw (k - 1) = [raw ! (k - 1)]"
      using n1 n2 by (simp add: spec_fold_step_def)
    have s2: "spec_fold_step raw k = [''-'']"
      using nk n1 m by (simp add: spec_fold_step_def)
    have up: "[0..<length raw] = [0..<k - 1] @ (k - 1) # k # [k + 1..<length raw]"
    proof -
      have "k - 1 + (length raw - (k - 1)) = length raw" using k by arith
      then have "[0..<length raw] = [0..<k - 1] @ [k - 1..<length raw]"
        using upt_add_eq_append [of 0 "k - 1" "length raw - (k - 1)"] by simp
      moreover have "[k - 1..<length raw] = (k - 1) # [k..<length raw]"
        using k k0 upt_conv_Cons [of "k - 1" "length raw"] by simp
      moreover have "[k..<length raw] = k # [k + 1..<length raw]"
        using k upt_conv_Cons [of k "length raw"] by simp
      ultimately show ?thesis by simp
    qed
    have "map Lit (spec_fold raw) =
          map Lit (concat (map (spec_fold_step raw) [0..<k - 1])) @
          Lit (raw ! (k - 1)) # Lit ''-'' #
          map Lit (concat (map (spec_fold_step raw) [k + 1..<length raw]))"
      using s1 s2 by (simp add: spec_fold_def up)
    then show ?thesis
      using lacks_pair [OF opener_opens [OF o] minus] by (simp add: lacks_left_operand_def)
  qed
qed

subsection \<open>A bound on the counters for every run\<close>



lemma advances_bound: "advances s tokens s' tokens' \<Longrightarrow> counters_bounded s tokens s'"
proof -
  assume a: "advances s tokens s' tokens'"
  have "\<And>ag. operations_performed s' ag \<le> operations_performed s ag + occurrences ag tokens"
  proof -
    fix ag
    have "operations_performed s' ag + occurrences ag tokens' =
          operations_performed s ag + occurrences ag tokens"
      using a by (simp add: advances_def)
    then show "operations_performed s' ag \<le>
          operations_performed s ag + occurrences ag tokens" by arith
  qed
  then show ?thesis using a by (simp add: counters_bounded_def advances_def)
qed









section \<open>The claims\<close>

text \<open>
  Several theorems below assume that the message queue is empty when a run of \<open>calculate\<close>
  starts. The constructor builds such a state (\<open>init_model_queue\<close>) and every call of
  \<open>calculate\<close> leaves one behind (\<open>calculate_queue\<close>), whether it returns or raises, so
  the assumption holds for every state the program reaches.
\<close>

text \<open>
  Claim C1. The evaluator resolves parentheses and then applies the tiers in the order
  power, multiplication and division, addition and subtraction, each from left to right:
  \<^verbatim>\<open>2+3*4\<close> gives 14, \<^verbatim>\<open>(2+3)*4\<close> gives 20, and \<^verbatim>\<open>2**3**2\<close> gives 64, which is
  \<^verbatim>\<open>(2**3)**2\<close>. For arbitrary numbers, \<open>x + y * z\<close> is evaluated as the sum of \<open>x\<close> and
  the product, and \<open>(x + y) * z\<close> as the product of the sum and \<open>z\<close>.
\<close>

theorem precedence_of_tiers:
  assumes "message_queue s = []"
  shows "fst (calculate ''2+3*4'' s) = Inr 14 \<and>
         fst (calculate ''(2+3)*4'' s) = Inr 20 \<and>
         fst (calculate ''2**3**2'' s) = Inr 64 \<and>
         fst (evaluate_expression
               [Res (PyFloat x), Lit ''+'', Res (PyFloat y), Lit ''*'', Res (PyFloat z)] s) =
           Inr (x + y * z) \<and>
         fst (evaluate_expression
               [Lit ''('', Res (PyFloat x), Lit ''+'', Res (PyFloat y), Lit '')'', Lit ''*'',
                Res (PyFloat z)] s) =
           Inr ((x + y) * z)"
proof -
  have a: "fst (calculate ''2+3*4'' init_model) = Inr 14" by code_simp
  have b: "fst (calculate ''(2+3)*4'' init_model) = Inr 20" by code_simp
  have c: "fst (calculate ''2**3**2'' init_model) = Inr 64" by code_simp
  have d: "fst (evaluate_expression
               [Res (PyFloat x), Lit ''+'', Res (PyFloat y), Lit ''*'', Res (PyFloat z)] s) =
           Inr (x + y * z)"
    using assms
    by (simp add: evaluate_expression_tiers handle_parentheses.simps apply_tiers_def
        evaluate_operator.simps request_operation_empty_queue operator_map_simps)
  have e: "fst (evaluate_expression
               [Lit ''('', Res (PyFloat x), Lit ''+'', Res (PyFloat y), Lit '')'', Lit ''*'',
                Res (PyFloat z)] s) =
           Inr ((x + y) * z)"
    using assms
    by (simp add: evaluate_expression_tiers handle_parentheses.simps apply_tiers_def
        evaluate_operator.simps request_operation_empty_queue operator_map_simps add_log_def)
  show ?thesis
    using a b c d e calculate_det [OF assms init_model_queue] by simp
qed

theorem precedence_of_tiers_witness:
  "message_queue init_model = [] \<and>
   fst (calculate ''2+3*4'' init_model) = Inr 14 \<and>
   fst (calculate ''(2+3)*4'' init_model) = Inr 20 \<and>
   fst (calculate ''2**3**2'' init_model) = Inr 64"
  using precedence_of_tiers [OF init_model_queue] init_model_queue by simp

text \<open>
  Claim C2. Within a tier the evaluator works from left to right. When the window
  \<open>[left, operator, right]\<close> at index \<open>i\<close> has been replaced by its result, the scan goes on
  at the same index \<open>i\<close> of the shorter list. So two operators of one tier are applied in
  the order they stand in, the first result being the left operand of the second, and
  \<^verbatim>\<open>8/4/2\<close> gives 1.
\<close>

theorem left_to_right_within_tier:
  assumes "message_queue s = []"
    and "0 < i" and "i < length tokens - 1" and "token_in (tokens ! i) operators"
    and "float_of (tokens ! (i - 1)) = Inr a" and "float_of (tokens ! (i + 1)) = Inr b"
    and "request_operation (token_str (tokens ! i)) a b s = (Inr r, s1)"
    and "operator1 \<in> set operators" and "operator2 \<in> set operators"
    and "operator_map operator1 = Some agent1" and "operator_map operator2 = Some agent2"
    and "operation_func agent1 x y = Inr (PyFloat u)"
    and "operation_func agent2 u z = Inr (PyFloat w)"
  shows "evaluate_operator tokens operators i s =
           evaluate_operator (take (i - 1) tokens @ [Res r] @ drop (i + 2) tokens)
             operators i s1 \<and>
         fst (evaluate_operator
                [Res (PyFloat x), Lit operator1, Res (PyFloat y), Lit operator2,
                 Res (PyFloat z)] operators 0 s) = Inr [Res (PyFloat w)] \<and>
         fst (calculate ''8/4/2'' s) = Inr 1"
proof -
  have k: "i < length tokens" "i \<noteq> length tokens - 1" "i \<noteq> 0" using assms(2,3) by simp_all
  have a: "evaluate_operator tokens operators i s =
           evaluate_operator (take (i - 1) tokens @ [Res r] @ drop (i + 2) tokens)
             operators i s1"
    using k assms(4-7) by (subst evaluate_operator.simps) simp
  have b: "fst (evaluate_operator
                [Res (PyFloat x), Lit operator1, Res (PyFloat y), Lit operator2,
                 Res (PyFloat z)] operators 0 s) = Inr [Res (PyFloat w)]"
    using assms(1) assms(8-)
    by (simp add: evaluate_operator.simps request_operation_empty_queue)
  have "fst (calculate ''8/4/2'' init_model) = Inr 1" by code_simp
  then have c: "fst (calculate ''8/4/2'' s) = Inr 1"
    using calculate_det [OF assms(1) init_model_queue] by simp
  show ?thesis using a b c by simp
qed

theorem left_to_right_within_tier_witness:
  "message_queue init_model = [] \<and>
   token_in ([Res (PyFloat 8), Lit ''/'', Res (PyFloat 4), Lit ''/'', Res (PyFloat 2)] ! 1)
     [''*'', ''/''] \<and>
   fst (request_operation ''/'' 8 4 init_model) = Inr (PyFloat 2) \<and>
   operator_map ''/'' = Some division_agent \<and>
   operation_func division_agent 8 4 = Inr (PyFloat 2) \<and>
   operation_func division_agent 2 2 = Inr (PyFloat 1) \<and>
   evaluate_operator
     [Res (PyFloat 8), Lit ''/'', Res (PyFloat 4), Lit ''/'', Res (PyFloat 2)]
     [''*'', ''/''] 1 init_model =
   evaluate_operator [Res (PyFloat 2), Lit ''/'', Res (PyFloat 2)]
     [''*'', ''/''] 1 (snd (request_operation ''/'' 8 4 init_model)) \<and>
   fst (evaluate_operator
          [Res (PyFloat 8), Lit ''/'', Res (PyFloat 4), Lit ''/'', Res (PyFloat 2)]
          [''*'', ''/''] 0 init_model) = Inr [Res (PyFloat 1)] \<and>
   fst (calculate ''8/4/2'' init_model) = Inr 1"
proof -
  let ?tokens = "[Res (PyFloat 8), Lit ''/'', Res (PyFloat 4), Lit ''/'', Res (PyFloat 2)]"
  have h1: "message_queue init_model = []" by (rule init_model_queue)
  have h2: "(0::nat) < 1" "1 < length ?tokens - 1" by simp_all
  have h3: "token_in (?tokens ! 1) [''*'', ''/'']" by simp
  have h4: "float_of (?tokens ! (1 - 1)) = Inr 8" "float_of (?tokens ! (1 + 1)) = Inr 4"
    by simp_all
  have f: "fst (request_operation ''/'' 8 4 init_model) = Inr (PyFloat 2)"
    by (simp add: request_operation_empty_queue [OF h1] operator_map_simps safe_div_def)
  have h5: "request_operation (token_str (?tokens ! 1)) 8 4 init_model =
            (Inr (PyFloat 2), snd (request_operation ''/'' 8 4 init_model))"
    using f by (cases "request_operation ''/'' 8 4 init_model") simp
  have h6: "''/'' \<in> set [''*'', ''/'']" by simp
  have h7: "operator_map ''/'' = Some division_agent" by (simp add: operator_map_simps)
  have h8: "operation_func division_agent 8 4 = Inr (PyFloat 2)"
    "operation_func division_agent 2 2 = Inr (PyFloat 1)"
    by (simp_all add: safe_div_def)
  show ?thesis
    using left_to_right_within_tier [OF h1 h2 h3 h4 h5 h6 h6 h7 h7 h8] h1 h3 f h7 h8
    by simp
qed

text \<open>
  Claim C3. The loop of the tokenizer folds a \<^verbatim>\<open>-\<close> into the numeral after it exactly at the
  positions the claim names: on every list of raw tokens it computes \<open>spec_fold\<close>, which
  makes a negative literal where the \<^verbatim>\<open>-\<close> stands at position 0 or after an operator or
  \<^verbatim>\<open>(\<close> and the next token is purely numeric (digits and decimal points, at least one
  digit), drops the numeral that was folded, and keeps every other token. The test of the
  code, \<^verbatim>\<open>replace('.', '').isdigit()\<close>, is that notion of purely numeric. So \<^verbatim>\<open>-3+5\<close>
  gives 2 and \<^verbatim>\<open>4*-2\<close> gives -8; a decimal is folded as well, \<^verbatim>\<open>-2.5+1\<close> gives -1.5; and
  the \<^verbatim>\<open>-\<close> of \<^verbatim>\<open>5-3\<close>, which follows a numeral, is not folded.
\<close>

theorem minus_fold:
  assumes "message_queue s = []"
  shows "tokenize_loop tokens 0 [] = spec_fold tokens \<and>
         isdigit (replace_dot t) = spec_purely_numeric t \<and>
         tokenize ''-3+5'' = [''-3'', ''+'', ''5''] \<and>
         tokenize ''4*-2'' = [''4'', ''*'', ''-2''] \<and>
         tokenize ''-2.5+1'' = [''-2.5'', ''+'', ''1''] \<and>
         tokenize ''5-3'' = [''5'', ''-'', ''3''] \<and>
         fst (calculate ''-3+5'' s) = Inr 2 \<and>
         fst (calculate ''4*-2'' s) = Inr (- 8) \<and>
         fst (calculate ''-2.5+1'' s) = Inr (- 3 / 2)"
proof -
  have a: "tokenize_loop tokens 0 [] = spec_fold tokens"
    using tokenize_loop_spec [of 0 tokens "[]"] by (simp add: spec_fold_def)
  have b: "tokenize ''-3+5'' = [''-3'', ''+'', ''5'']" by code_simp
  have c: "tokenize ''4*-2'' = [''4'', ''*'', ''-2'']" by code_simp
  have d: "fst (calculate ''-3+5'' init_model) = Inr 2" by code_simp
  have e: "fst (calculate ''4*-2'' init_model) = Inr (- 8)" by code_simp
  have f: "tokenize ''-2.5+1'' = [''-2.5'', ''+'', ''1'']" by code_simp
  have g: "fst (calculate ''-2.5+1'' init_model) = Inr (- 3 / 2)" by code_simp
  have h: "tokenize ''5-3'' = [''5'', ''-'', ''3'']" by code_simp
  show ?thesis
    using a b c d e f g h purely_numeric [of t] calculate_det [OF assms init_model_queue]
    by simp
qed

theorem minus_fold_witness:
  "message_queue init_model = [] \<and>
   spec_purely_numeric ''0.5'' \<and>
   spec_fold [''2'', ''*'', ''-'', ''0.5''] = [''2'', ''*'', ''-0.5''] \<and>
   tokenize_loop [''2'', ''*'', ''-'', ''0.5''] 0 [] = [''2'', ''*'', ''-0.5''] \<and>
   isdigit (replace_dot ''0.5'') \<and>
   fst (calculate ''-3+5'' init_model) = Inr 2 \<and>
   fst (calculate ''4*-2'' init_model) = Inr (- 8) \<and>
   fst (calculate ''-2.5+1'' init_model) = Inr (- 3 / 2)"
proof -
  have a: "spec_fold [''2'', ''*'', ''-'', ''0.5''] = [''2'', ''*'', ''-0.5'']" by code_simp
  have b: "spec_purely_numeric ''0.5''" by (simp add: spec_purely_numeric_def)
  show ?thesis
    using minus_fold [OF init_model_queue, of "[''2'', ''*'', ''-'', ''0.5'']" "''0.5''"]
      a b init_model_queue
    by simp
qed

text \<open>
  Claim C4. The division function raises the division-by-zero error exactly when the
  divisor is zero and returns the quotient otherwise; evaluating \<^verbatim>\<open>5/0\<close> raises that error
  and returns no number.
\<close>

theorem division_by_zero:
  assumes "message_queue s = []"
  shows "(safe_div a b = Inl (ValueError Division_por_cero_no_permitida) \<longleftrightarrow> b = 0) \<and>
         (b \<noteq> 0 \<longrightarrow> safe_div a b = Inr (PyFloat (a / b))) \<and>
         fst (calculate ''5/0'' s) = Inl (ValueError Division_por_cero_no_permitida)"
proof -
  have "fst (calculate ''5/0'' init_model) = Inl (ValueError Division_por_cero_no_permitida)"
    by code_simp
  then have "fst (calculate ''5/0'' s) = Inl (ValueError Division_por_cero_no_permitida)"
    using calculate_det [OF assms init_model_queue] by simp
  then show ?thesis by (simp add: safe_div_def)
qed

theorem division_by_zero_witness:
  "message_queue init_model = [] \<and> (2::real) \<noteq> 0 \<and>
   safe_div 5 0 = Inl (ValueError Division_por_cero_no_permitida) \<and>
   safe_div 6 2 = Inr (PyFloat 3) \<and>
   fst (calculate ''5/0'' init_model) = Inl (ValueError Division_por_cero_no_permitida)"
  using division_by_zero [OF init_model_queue, of 5 0]
    division_by_zero [OF init_model_queue, of 6 2] init_model_queue
  by simp

text \<open>
  Claim C5. One turn of the parenthesis loop takes the last \<^verbatim>\<open>(\<close> of the list and the first
  \<^verbatim>\<open>)\<close> after it, evaluates the tokens between them with \<open>evaluate_expression\<close>, puts the
  single result in the place of the whole group and goes on with the new list. When no
  \<^verbatim>\<open>)\<close> follows the last \<^verbatim>\<open>(\<close>, it raises the error for unbalanced parentheses and leaves
  the state as it was. A list without \<^verbatim>\<open>(\<close> is returned as it is. So \<^verbatim>\<open>(2+3\<close> raises that
  error.
\<close>

theorem parenthesis_resolution:
  assumes "message_queue s = []"
    and "Lit ''('' \<notin> set inner" and "Lit '')'' \<notin> set inner" and "Lit ''('' \<notin> set post"
    and "Lit ''('' \<notin> set rest" and "Lit '')'' \<notin> set rest"
    and "Lit ''('' \<notin> set plain"
  shows "handle_parentheses (pre @ Lit ''('' # inner @ Lit '')'' # post) s =
           (case evaluate_expression inner (add_log (Log_evaluando_parentesis inner) s) of
              (Inl e, s1) \<Rightarrow> (Inl e, s1)
            | (Inr r, s1) \<Rightarrow> handle_parentheses (pre @ Res (PyFloat r) # post) s1) \<and>
         handle_parentheses (pre @ Lit ''('' # rest) s =
           (Inl (ValueError Parentesis_no_balanceados), s) \<and>
         handle_parentheses plain s = (Inr plain, s) \<and>
         fst (calculate ''(2+3'' s) = Inl (ValueError Parentesis_no_balanceados)"
proof -
  let ?tokens = "pre @ Lit ''('' # inner @ Lit '')'' # post"
  have st: "find_start ?tokens 0 None = Some (length pre)"
    using assms(2,4) by (simp add: find_start_last)
  have dr: "drop (length pre + 1) ?tokens = inner @ Lit '')'' # post" by simp
  have en: "find_end (drop (length pre + 1) ?tokens) (length pre + 1) =
            Some (length pre + 1 + length inner)"
    unfolding dr using assms(3) by (rule find_end_first)
  have sub: "take (length pre + 1 + length inner - (length pre + 1))
               (drop (length pre + 1) ?tokens) = inner"
    unfolding dr by simp
  obtain r1 s1 where
    e: "evaluate_expression inner (add_log (Log_evaluando_parentesis inner) s) = (r1, s1)"
    by (cases "evaluate_expression inner (add_log (Log_evaluando_parentesis inner) s)")
  have op: "Lit ''('' \<in> set ?tokens" by simp
  have a: "handle_parentheses ?tokens s =
           (case evaluate_expression inner (add_log (Log_evaluando_parentesis inner) s) of
              (Inl e, s1) \<Rightarrow> (Inl e, s1)
            | (Inr r, s1) \<Rightarrow> handle_parentheses (pre @ Res (PyFloat r) # post) s1)"
  proof -
    have e': "evaluate_expression
                (take (length pre + 1 + length inner - (length pre + 1))
                   (drop (length pre + 1) ?tokens))
                (add_log (Log_evaluando_parentesis
                   (take (length pre + 1 + length inner - (length pre + 1))
                      (drop (length pre + 1) ?tokens))) s) = (r1, s1)"
      unfolding sub using e .
    show ?thesis
      using handle_parentheses_step [OF op st en e'] e by (cases r1) simp_all
  qed
  have st2: "find_start (pre @ Lit ''('' # rest) 0 None = Some (length pre)"
    using assms(5) by (simp add: find_start_last)
  have en2: "find_end (drop (length pre + 1) (pre @ Lit ''('' # rest)) (length pre + 1) = None"
    using assms(6) by (simp add: find_end_absent)
  have b: "handle_parentheses (pre @ Lit ''('' # rest) s =
           (Inl (ValueError Parentesis_no_balanceados), s)"
    using st2 en2 by (subst handle_parentheses.simps) simp
  have c: "handle_parentheses plain s = (Inr plain, s)"
    using assms(7) by (subst handle_parentheses.simps) simp
  have "fst (calculate ''(2+3'' init_model) = Inl (ValueError Parentesis_no_balanceados)"
    by code_simp
  then have d: "fst (calculate ''(2+3'' s) = Inl (ValueError Parentesis_no_balanceados)"
    using calculate_det [OF assms(1) init_model_queue] by simp
  show ?thesis using a b c d by simp
qed

theorem parenthesis_resolution_witness:
  "message_queue init_model = [] \<and>
   Lit ''('' \<notin> set [Lit ''2'', Lit ''+'', Lit ''3''] \<and>
   Lit '')'' \<notin> set [Lit ''2'', Lit ''+'', Lit ''3''] \<and>
   Lit ''('' \<notin> set [Lit ''*'', Lit ''4''] \<and>
   handle_parentheses [Lit ''('', Lit ''2'', Lit ''+'', Lit ''3''] init_model =
     (Inl (ValueError Parentesis_no_balanceados), init_model) \<and>
   handle_parentheses [Lit ''*'', Lit ''4''] init_model = (Inr [Lit ''*'', Lit ''4''], init_model) \<and>
   fst (handle_parentheses
         [Lit ''('', Lit ''2'', Lit ''+'', Lit ''3'', Lit '')'', Lit ''*'', Lit ''4'']
         init_model) = Inr [Res (PyFloat 5), Lit ''*'', Lit ''4''] \<and>
   fst (calculate ''(2+3'' init_model) = Inl (ValueError Parentesis_no_balanceados)"
proof -
  have h: "Lit ''('' \<notin> set [Lit ''2'', Lit ''+'', Lit ''3'']"
    "Lit '')'' \<notin> set [Lit ''2'', Lit ''+'', Lit ''3'']"
    "Lit ''('' \<notin> set [Lit ''*'', Lit ''4'']"
    by simp_all
  have e: "fst (handle_parentheses
         [Lit ''('', Lit ''2'', Lit ''+'', Lit ''3'', Lit '')'', Lit ''*'', Lit ''4'']
         init_model) = Inr [Res (PyFloat 5), Lit ''*'', Lit ''4'']"
    by code_simp
  show ?thesis
    using parenthesis_resolution [OF init_model_queue h(1) h(2) h(3) h(1) h(2) h(3), of "[]"]
      h e init_model_queue
    by simp
qed

text \<open>
  Claim C6. The claim asks the tokenizer to fail on an unrecognized character, and the
  comment \<^verbatim>\<open>Limpiar y validar expresion\<close> in \<open>process_expression\<close> announces a validation,
  but the code only removes spaces and \<^verbatim>\<open>re.findall\<close> skips what it cannot match. On
  \<^verbatim>\<open>2a+3\<close> the character \<^verbatim>\<open>a\<close> is dropped without an error: the tokens are those of
  \<^verbatim>\<open>2+3\<close>, the evaluation returns 5, and the log of the run holds no error line.
\<close>

theorem unrecognized_character_is_skipped:
  "tokenize ''2a+3'' = [''2'', ''+'', ''3''] \<and>
   tokenize ''2a+3'' = tokenize ''2+3'' \<and>
   fst (calculate ''2a+3'' init_model) = Inr 5 \<and>
   io_result (snd (calculate ''2a+3'' init_model)) = Some 5"
  by code_simp

text \<open>
  Claim C7. In every evaluation that returns a number, the message history of that
  evaluation is a sequence of pairs, each an \<^verbatim>\<open>operation\<close> message from the \<^verbatim>\<open>IOAgent\<close> to an
  operation agent followed by that agent's \<^verbatim>\<open>result\<close> message, and there are as many pairs
  as the token list has operator tokens. A substitution of the evaluator replaces exactly
  one operator token, and a successful evaluation replaces every one of them, so this is
  one pair for each substitution.
\<close>

theorem one_exchange_per_substitution:
  assumes "message_queue s = []" and "calculate expression s = (Inr v, s')"
  shows "paired (message_history s') \<and>
         length (message_history s') = 2 * operator_count (expression_tokens expression)"
proof -
  obtain r2 s2 where
    e: "evaluate_expression (expression_tokens expression) (prepare expression s) = (r2, s2)"
    by (cases "evaluate_expression (expression_tokens expression) (prepare expression s)")
  have r2: "r2 = Inr v" using assms(2) e by (cases r2) (simp_all add: calculate_unfold)
  have h: "message_history s' = message_history s2"
    using calculate_history_eq [of expression s] assms(2) e by simp
  have "advances (prepare expression s) (expression_tokens expression) s2 []"
    using evaluate_advances(1) [of "prepare expression s"] e r2 assms(1)
    by (simp add: prepare_simps)
  then show ?thesis
    using h by (auto simp: advances_def prepare_simps operator_count_def)
qed

theorem one_exchange_per_substitution_witness:
  "message_queue init_model = [] \<and>
   fst (calculate ''2+3*4'' init_model) = Inr 14 \<and>
   paired (message_history (snd (calculate ''2+3*4'' init_model))) \<and>
   length (message_history (snd (calculate ''2+3*4'' init_model))) = 4"
proof -
  have a: "fst (calculate ''2+3*4'' init_model) = Inr 14" by code_simp
  have b: "operator_count (expression_tokens ''2+3*4'') = 2" by code_simp
  have c: "calculate ''2+3*4'' init_model = (Inr 14, snd (calculate ''2+3*4'' init_model))"
    using a by (cases "calculate ''2+3*4'' init_model") simp
  show ?thesis
    using one_exchange_per_substitution [OF init_model_queue c] a b init_model_queue by simp
qed

text \<open>
  Claim C8. The counter of an operation agent changes only when an operation of that agent
  completes: \<open>perform_operation\<close> adds one when the operation function returns and leaves
  every counter as it is when the function raises. Nothing else in a run of \<open>calculate\<close>
  writes a counter, and \<open>calculate\<close> does not reset it: after any run, returned or raised,
  from any state, the counter is its value before the run plus the number of completed
  operations of that agent that the log of the run reports.
\<close>

theorem counters_count_applications:
  "operations_performed (snd (calculate expression s)) ag =
     operations_performed s ag +
     applications ag (log_messages (snd (calculate expression s))) \<and>
   operations_performed (snd (perform_operation ag a b s)) =
     (case operation_func ag a b of
        Inl e \<Rightarrow> operations_performed s
      | Inr r \<Rightarrow> (operations_performed s)(ag := operations_performed s ag + 1))"
proof -
  obtain r2 s2 where
    e: "evaluate_expression (expression_tokens expression) (prepare expression s) = (r2, s2)"
    by (cases "evaluate_expression (expression_tokens expression) (prepare expression s)")
  have "balanced ag (operations_performed s ag) (prepare expression s)"
    by (simp add: balanced_def prepare_def add_log_def clear_logs_def clear_history_def
        applications_def)
  then have "balanced ag (operations_performed s ag)
               (snd (evaluate_expression (expression_tokens expression) (prepare expression s)))"
    by (rule balanced_evaluate_expression)
  then have bal: "operations_performed s2 ag =
                  operations_performed s ag + applications ag (log_messages s2)"
    using e by (simp add: balanced_def)
  have a: "operations_performed (snd (calculate expression s)) ag =
     operations_performed s ag +
     applications ag (log_messages (snd (calculate expression s)))"
  proof (cases r2)
    case (Inl err)
    have "applications ag [Log_error_al_procesar err] = 0" by (simp add: applications_def)
    then show ?thesis using bal e Inl
      by (simp add: calculate_unfold add_log_def applications_append)
  next
    case (Inr r)
    have "applications ag [Log_resultado_final r, Log_separador] = 0"
      by (simp add: applications_def)
    then show ?thesis using bal e Inr
      by (simp add: calculate_unfold add_log_def applications_append)
  qed
  have b: "operations_performed (snd (perform_operation ag a b s)) =
     (case operation_func ag a b of
        Inl e \<Rightarrow> operations_performed s
      | Inr r \<Rightarrow> (operations_performed s)(ag := operations_performed s ag + 1))"
    by (simp add: perform_operation_def add_log_def split: sum.splits)
  show ?thesis using a b by simp
qed

theorem counters_count_applications_witness:
  "applications suma_agent (log_messages (snd (calculate ''2+3*4'' init_model))) = 1 \<and>
   operations_performed (snd (calculate ''2+3*4'' init_model)) suma_agent = 1 \<and>
   operation_func division_agent 5 0 = Inl (ValueError Division_por_cero_no_permitida) \<and>
   operations_performed (snd (perform_operation division_agent 5 0 init_model)) =
     operations_performed init_model"
proof -
  have a: "applications suma_agent (log_messages (snd (calculate ''2+3*4'' init_model))) = 1"
    by code_simp
  have b: "operations_performed init_model suma_agent = 0" by (simp add: init_model_def)
  have c: "operation_func division_agent 5 0 = Inl (ValueError Division_por_cero_no_permitida)"
    by (simp add: safe_div_def)
  show ?thesis
    using counters_count_applications [of "''2+3*4''" init_model suma_agent]
      counters_count_applications [of "''2+3*4''" init_model division_agent 5 0] a b c
    by simp
qed




text \<open>
  Claim C10, as amended. An expression with a unary minus right before a parenthesis (a
  \<^verbatim>\<open>-\<close> at the start, or after an operator or \<^verbatim>\<open>(\<close>, followed by \<^verbatim>\<open>(\<close>) never returns a
  number, from any state: the \<^verbatim>\<open>-\<close> is not folded, because the token after it is not
  numeric, and it stays an operator without a left operand, so nothing is computed as
  \<open>0 - (...)\<close>. When the \<^verbatim>\<open>-\<close> is the first token as the addition tier starts, the error
  is the one for an operator in an invalid position, as it is for \<^verbatim>\<open>-(2+3)\<close>.
\<close>

theorem minus_before_parenthesis:
  assumes "k + 1 < length (raw_tokens expression)"
    and "raw_tokens expression ! k = ''-''"
    and "raw_tokens expression ! (k + 1) = ''(''"
    and "k = 0 \<or> raw_tokens expression ! (k - 1) \<in> set [''+'', ''-'', ''*'', ''/'', ''**'', ''('']"
    and "message_queue t = []"
  shows "isl (fst (calculate expression s)) \<and>
         fst (evaluate_operator (Lit ''-'' # rest) [''+'', ''-''] 0 s) =
           Inl (ValueError (Operador_en_posicion_invalida (Lit ''-''))) \<and>
         tokenize ''-(2+3)'' = [''-'', ''('', ''2'', ''+'', ''3'', '')''] \<and>
         fst (calculate ''-(2+3)'' t) =
           Inl (ValueError (Operador_en_posicion_invalida (Lit ''-'')))"
proof -
  have "lacks_left_operand (expression_tokens expression)"
    unfolding expression_tokens_spec_fold
    using assms(1-4) by (rule unary_minus_survives)
  then have a: "isl (fst (calculate expression s))"
    unfolding calculate_fst by (rule evaluate_lacks(1))
  have b: "fst (evaluate_operator (Lit ''-'' # rest) [''+'', ''-''] 0 s) =
           Inl (ValueError (Operador_en_posicion_invalida (Lit ''-'')))"
    by (subst evaluate_operator.simps) simp
  have c: "tokenize ''-(2+3)'' = [''-'', ''('', ''2'', ''+'', ''3'', '')'']" by code_simp
  have "fst (calculate ''-(2+3)'' init_model) =
           Inl (ValueError (Operador_en_posicion_invalida (Lit ''-'')))" by code_simp
  then have d: "fst (calculate ''-(2+3)'' t) =
           Inl (ValueError (Operador_en_posicion_invalida (Lit ''-'')))"
    using calculate_det [OF assms(5) init_model_queue] by simp
  show ?thesis using a b c d by simp
qed

theorem minus_before_parenthesis_witness:
  "2 + 1 < length (raw_tokens ''2*-(3)'') \<and>
   raw_tokens ''2*-(3)'' ! 2 = ''-'' \<and>
   raw_tokens ''2*-(3)'' ! (2 + 1) = ''('' \<and>
   raw_tokens ''2*-(3)'' ! (2 - 1) \<in> set [''+'', ''-'', ''*'', ''/'', ''**'', ''(''] \<and>
   message_queue init_model = [] \<and>
   isl (fst (calculate ''2*-(3)'' init_model)) \<and>
   fst (evaluate_operator [Lit ''-'', Res (PyFloat 5)] [''+'', ''-''] 0 init_model) =
     Inl (ValueError (Operador_en_posicion_invalida (Lit ''-''))) \<and>
   fst (calculate ''-(2+3)'' init_model) =
     Inl (ValueError (Operador_en_posicion_invalida (Lit ''-'')))"
proof -
  have r: "raw_tokens ''2*-(3)'' = [''2'', ''*'', ''-'', ''('', ''3'', '')'']" by code_simp
  have h: "2 + 1 < length (raw_tokens ''2*-(3)'')" "raw_tokens ''2*-(3)'' ! 2 = ''-''"
    "raw_tokens ''2*-(3)'' ! (2 + 1) = ''(''"
    "raw_tokens ''2*-(3)'' ! (2 - 1) \<in> set [''+'', ''-'', ''*'', ''/'', ''**'', ''('']"
    by (simp_all add: r)
  have h4: "2 = (0::nat) \<or>
      raw_tokens ''2*-(3)'' ! (2 - 1) \<in> set [''+'', ''-'', ''*'', ''/'', ''**'', ''('']"
    using h(4) by simp
  show ?thesis
    using minus_before_parenthesis [OF h(1) h(2) h(3) h4 init_model_queue,
        of init_model "[Res (PyFloat 5)]"] h init_model_queue
    by simp
qed

text \<open>
  Claim C10 as stated, for every unary minus before a parenthesis, does not hold for the
  error: in \<^verbatim>\<open>2*-(3)\<close> the \<^verbatim>\<open>-\<close> becomes the right operand of the multiplication and
  \<^verbatim>\<open>float\<close> raises its own error for it, and in \<^verbatim>\<open>-(1/0)\<close> the division inside the
  parentheses raises first.
\<close>

theorem minus_before_parenthesis_counterexample:
  "tokenize ''2*-(3)'' = [''2'', ''*'', ''-'', ''('', ''3'', '')''] \<and>
   fst (calculate ''2*-(3)'' init_model) =
     Inl (ValueError (Could_not_convert_to_float (Lit ''-''))) \<and>
   fst (calculate ''-(1/0)'' init_model) = Inl (ValueError Division_por_cero_no_permitida)"
  by code_simp

end
